theory Spec2Isabelle
  imports Complex_Main
begin

section \<open>Strings and text normalisation (utils.py)\<close>

text \<open>
  A Python \<open>str\<close> is a sequence of Unicode code points and \<open>len\<close> counts code points,
  so a string is modelled as the list of its code points. \<open>u\<close> reads an ASCII literal.
\<close>

type_synonym pystr = "nat list"

definition u :: "string \<Rightarrow> pystr" where
  "u s = map of_char s"

text \<open>
  The code points that \<open>str.split()\<close> and \<open>str.strip()\<close> without argument treat as
  white space (those for which \<open>str.isspace\<close> holds).
\<close>

definition is_space :: "nat \<Rightarrow> bool" where
  "is_space c \<longleftrightarrow>
     (9 \<le> c \<and> c \<le> 13) \<or> (28 \<le> c \<and> c \<le> 32) \<or> c = 133 \<or> c = 160 \<or> c = 5760 \<or>
     (8192 \<le> c \<and> c \<le> 8202) \<or> c = 8232 \<or> c = 8233 \<or> c = 8239 \<or> c = 8287 \<or> c = 12288"

text \<open>\<open>s.split()\<close>: the maximal runs of non-space code points, scanned left to right
  with the word read so far as accumulator.\<close>

fun split_from :: "pystr \<Rightarrow> pystr \<Rightarrow> pystr list" where
  "split_from w [] = (if w = [] then [] else [w])"
| "split_from w (c # cs) =
     (if is_space c then (if w = [] then split_from [] cs else w # split_from [] cs)
      else split_from (w @ [c]) cs)"

definition py_split :: "pystr \<Rightarrow> pystr list" where
  "py_split s = split_from [] s"

text \<open>\<open>sep.join(xs)\<close>.\<close>

fun py_join :: "pystr \<Rightarrow> pystr list \<Rightarrow> pystr" where
  "py_join sep [] = []"
| "py_join sep [x] = x"
| "py_join sep (x # y # ys) = x @ sep @ py_join sep (y # ys)"

text \<open>\<open>s.strip()\<close>.\<close>

definition py_strip :: "pystr \<Rightarrow> pystr" where
  "py_strip s = rev (dropWhile is_space (rev (dropWhile is_space s)))"

text \<open>\<open>normalize_text\<close>: replace U+00A0 by a space, collapse white space, strip.\<close>

definition normalize_text :: "pystr \<Rightarrow> pystr" where
  "normalize_text s =
     py_strip (py_join [32] (py_split (map (\<lambda>c. if c = 160 then 32 else c) s)))"

text \<open>\<open>stable_doc_id\<close>: the document id is the hex digest itself.\<close>

definition stable_doc_id :: "pystr \<Rightarrow> pystr" where
  "stable_doc_id sha256_hex = sha256_hex"


section \<open>The chunker (indexer.py)\<close>

text \<open>
  \<open>uuid.uuid4().hex\<close> is modelled by a supply: \<open>uuid4 n\<close> is the value that the
  \<open>n\<close>-th call of the process returns, and the number of calls made so far is threaded
  through the state. The supply is arbitrary, so a repeated value is possible in the model.
\<close>

type_synonym uuid = nat

record chunk =
  c_id :: uuid
  c_doc_id :: pystr
  c_page_start :: int
  c_page_end :: int
  c_text :: pystr

text \<open>The local variables of \<open>build_chunks\<close> that its closure \<open>flush\<close> shares with
  the loop, and the count of identifiers drawn.\<close>

record builder =
  b_chunks :: "chunk list"
  b_buf :: "pystr list"
  b_current_start :: int
  b_current_end :: int
  b_draws :: nat

definition flush :: "(nat \<Rightarrow> uuid) \<Rightarrow> pystr \<Rightarrow> builder \<Rightarrow> builder" where
  "flush uuid4 doc_id b =
     (if b_buf b = [] then b
      else
        let text = normalize_text (py_join [10] (b_buf b));
            b1 = (if text \<noteq> []
                  then b\<lparr>b_chunks := b_chunks b @
                            [\<lparr>c_id = uuid4 (b_draws b), c_doc_id = doc_id,
                              c_page_start = b_current_start b,
                              c_page_end = b_current_end b, c_text = text\<rparr>],
                         b_draws := Suc (b_draws b)\<rparr>
                  else b)
        in b1\<lparr>b_buf := []\<rparr>)"

text \<open>One iteration of the loop over \<open>enumerate(pages_text, start=1)\<close>.\<close>

definition page_step ::
  "(nat \<Rightarrow> uuid) \<Rightarrow> pystr \<Rightarrow> int \<Rightarrow> int \<Rightarrow> int \<Rightarrow> builder \<Rightarrow> nat \<times> pystr \<Rightarrow> builder" where
  "page_step uuid4 doc_id max_chunk_chars min_chunk_chars max_pages_per_chunk b it =
     (let idx = int (fst it); text = snd it in
      if text = [] then b
      else if b_buf b = [] then b\<lparr>b_current_start := idx, b_current_end := idx, b_buf := [text]\<rparr>
      else
        let candidate = py_join [10] (b_buf b @ [text]);
            pages_in_chunk = (idx - b_current_start b) + 1
        in
          if int (length candidate) \<le> max_chunk_chars \<and> pages_in_chunk \<le> max_pages_per_chunk
          then b\<lparr>b_buf := b_buf b @ [text], b_current_end := idx\<rparr>
          else
            let b1 = (if int (length (py_join [10] (b_buf b))) < min_chunk_chars
                         \<and> pages_in_chunk \<le> max_pages_per_chunk
                      then b\<lparr>b_buf := b_buf b @ [text], b_current_end := idx\<rparr>
                      else b);
                b2 = flush uuid4 doc_id b1
            in b2\<lparr>b_current_start := idx, b_current_end := idx, b_buf := [text]\<rparr>)"

definition builder_init :: "nat \<Rightarrow> builder" where
  "builder_init draws =
     \<lparr>b_chunks = [], b_buf = [], b_current_start = 1, b_current_end = 1, b_draws = draws\<rparr>"

text \<open>\<open>build_chunks\<close> returns the chunks; the model returns with them the number of
  identifiers drawn so far.\<close>

definition build_chunks ::
  "(nat \<Rightarrow> uuid) \<Rightarrow> nat \<Rightarrow> pystr list \<Rightarrow> pystr \<Rightarrow> int \<Rightarrow> int \<Rightarrow> int \<Rightarrow> chunk list \<times> nat" where
  "build_chunks uuid4 draws pages_text doc_id max_chunk_chars min_chunk_chars max_pages_per_chunk =
     (let b = flush uuid4 doc_id
                (foldl (page_step uuid4 doc_id max_chunk_chars min_chunk_chars max_pages_per_chunk)
                   (builder_init draws) (enumerate 1 pages_text))
      in (b_chunks b, b_draws b))"

text \<open>The page ranges of a list of chunks, in order.\<close>

definition ranges :: "chunk list \<Rightarrow> (int \<times> int) list" where
  "ranges cs = map (\<lambda>c. (c_page_start c, c_page_end c)) cs"


section \<open>The index store (db.py)\<close>

text \<open>
  The three tables of \<open>init_db\<close>. A row of \<open>chunks\<close> has the fields of a \<open>chunk\<close>
  (the tuple that \<open>ingest\<close> builds from it), so the table is a list of chunks. Rows are
  kept in insertion order; an \<open>ON CONFLICT DO UPDATE\<close> keeps the row's position.
  \<open>mtime\<close> and \<open>indexed_at\<close> are finite doubles, modelled by the real number they
  denote, on which Python's \<open>==\<close> is equality. The foreign key of \<open>chunks\<close> is not
  enforced: SQLite checks it only under \<open>PRAGMA foreign_keys\<close>, which \<open>connect\<close> does
  not set. The one constraint that can fail is the primary key of \<open>chunks\<close>.
\<close>

record document =
  d_id :: pystr
  d_path :: pystr
  d_filename :: pystr
  d_sha256 :: pystr
  d_mtime :: real
  d_size_bytes :: int
  d_indexed_at :: real

record fts_row =
  f_chunk_id :: uuid
  f_document_id :: pystr
  f_filename :: pystr
  f_path :: pystr
  f_page_start :: int
  f_page_end :: int
  f_text :: pystr

record db =
  documents :: "document list"
  chunks :: "chunk list"
  chunks_fts :: "fts_row list"

text \<open>
  A connection: the state as of the last commit and the state that the statements of the
  open transaction have produced. Statements read and write \<open>working\<close>.
\<close>

record connection =
  committed :: db
  working :: db

datatype exn =
  OSError | ExtractionError | IntegrityError | OperationalError | OverflowError
  | UnicodeEncodeError

definition init_db :: connection where
  "init_db = \<lparr>committed = \<lparr>documents = [], chunks = [], chunks_fts = []\<rparr>,
              working = \<lparr>documents = [], chunks = [], chunks_fts = []\<rparr>\<rparr>"

definition commit :: "connection \<Rightarrow> connection" where
  "commit conn = conn\<lparr>committed := working conn\<rparr>"

definition rollback :: "connection \<Rightarrow> connection" where
  "rollback conn = conn\<lparr>working := committed conn\<rparr>"

text \<open>\<open>INSERT ... ON CONFLICT(id) DO UPDATE SET\<close> every other column: a row with the
  same \<open>id\<close> is overwritten where it stands, otherwise the row is added.\<close>

definition upsert_row :: "document list \<Rightarrow> document \<Rightarrow> document list" where
  "upsert_row rows d =
     (if d_id d \<in> set (map d_id rows)
      then map (\<lambda>r. if d_id r = d_id d then d else r) rows
      else rows @ [d])"

definition upsert_document :: "connection \<Rightarrow> document \<Rightarrow> connection" where
  "upsert_document conn d =
     conn\<lparr>working := (working conn)\<lparr>documents := upsert_row (documents (working conn)) d\<rparr>\<rparr>"

text \<open>\<open>SELECT * FROM documents WHERE path = ? LIMIT 1\<close>: the first row, in table
  order, with this path.\<close>

definition get_document_by_path :: "connection \<Rightarrow> pystr \<Rightarrow> document option" where
  "get_document_by_path conn p = find (\<lambda>d. d_path d = p) (documents (working conn))"

definition delete_document_chunks :: "connection \<Rightarrow> pystr \<Rightarrow> connection" where
  "delete_document_chunks conn doc_id =
     conn\<lparr>working := (working conn)\<lparr>
        chunks := filter (\<lambda>c. c_doc_id c \<noteq> doc_id) (chunks (working conn)),
        chunks_fts := filter (\<lambda>r. f_document_id r \<noteq> doc_id) (chunks_fts (working conn))\<rparr>\<rparr>"

text \<open>\<open>executemany\<close> of the insert into \<open>chunks\<close>: row after row; a row whose \<open>id\<close>
  (the primary key) is already in the table raises, the rows before it staying in the
  open transaction.\<close>

fun insert_chunks :: "connection \<Rightarrow> chunk list \<Rightarrow> (exn + unit) \<times> connection" where
  "insert_chunks conn [] = (Inr (), conn)"
| "insert_chunks conn (r # rs) =
     (if c_id r \<in> set (map c_id (chunks (working conn))) then (Inl IntegrityError, conn)
      else insert_chunks (conn\<lparr>working := (working conn)\<lparr>chunks := chunks (working conn) @ [r]\<rparr>\<rparr>) rs)"

definition insert_fts_rows :: "connection \<Rightarrow> fts_row list \<Rightarrow> connection" where
  "insert_fts_rows conn rows =
     conn\<lparr>working := (working conn)\<lparr>chunks_fts := chunks_fts (working conn) @ rows\<rparr>\<rparr>"

text \<open>
  The FTS5 engine is outside the repository. Its part in \<open>search_chunks\<close> is taken as
  parameters: whether it parses the query (it raises otherwise), which rows match, the
  \<open>bm25\<close> score of a row in the table, and the snippet of a row.

  The values of the \<open>?\<close> placeholders are bound before the statement runs, in the
  order of the tuple. The \<open>sqlite3\<close> module binds a Python \<open>int\<close> as a signed
  64-bit integer and raises \<open>OverflowError\<close> for any other; it binds a \<open>str\<close> in
  UTF-8 and raises \<open>UnicodeEncodeError\<close> for one that has a surrogate code point.
\<close>

definition int64 :: "int \<Rightarrow> bool" where
  "int64 n \<longleftrightarrow> - 9223372036854775808 \<le> n \<and> n \<le> 9223372036854775807"

definition utf8_encodable :: "pystr \<Rightarrow> bool" where
  "utf8_encodable s \<longleftrightarrow> list_all (\<lambda>c. c < 55296 \<or> (57343 < c \<and> c \<le> 1114111)) s"

record fts_engine =
  fts_accepts :: "pystr \<Rightarrow> bool"
  fts_match :: "pystr \<Rightarrow> fts_row \<Rightarrow> bool"
  fts_bm25 :: "pystr \<Rightarrow> fts_row list \<Rightarrow> fts_row \<Rightarrow> real"
  fts_snippet :: "pystr \<Rightarrow> int \<Rightarrow> fts_row \<Rightarrow> pystr"

record search_result =
  sr_doc_id :: pystr
  sr_filename :: pystr
  sr_path :: pystr
  sr_page_start :: int
  sr_page_end :: int
  sr_score :: real
  sr_snippet :: pystr

text \<open>\<open>LIMIT n\<close>: the first \<open>n\<close> rows; SQLite puts no bound on the rows when \<open>n\<close> is
  negative.\<close>

definition sql_limit :: "int \<Rightarrow> 'a list \<Rightarrow> 'a list" where
  "sql_limit n rows = (if n < 0 then rows else take (nat n) rows)"

definition search_chunks ::
  "fts_engine \<Rightarrow> connection \<Rightarrow> pystr \<Rightarrow> int \<Rightarrow> int \<Rightarrow> exn + search_result list" where
  "search_chunks eng conn query top_k snippet_chars =
     (if \<not> int64 (max 10 snippet_chars) then Inl OverflowError
      else if \<not> utf8_encodable query then Inl UnicodeEncodeError
      else if \<not> int64 top_k then Inl OverflowError
      else if \<not> fts_accepts eng query then Inl OperationalError
      else
        let tbl = chunks_fts (working conn);
            scored = map (\<lambda>r. (fts_bm25 eng query tbl r, r)) (filter (fts_match eng query) tbl);
            rows = sql_limit top_k (sort_key fst scored)
        in Inr (map (\<lambda>(score, r).
                  \<lparr>sr_doc_id = f_document_id r, sr_filename = f_filename r, sr_path = f_path r,
                    sr_page_start = f_page_start r, sr_page_end = f_page_end r,
                    sr_score = score,
                    sr_snippet = fts_snippet eng query (max 10 snippet_chars) r\<rparr>) rows))"


section \<open>The environment: file system, libraries, clock\<close>

text \<open>
  What the code reads from outside the program, taken as parameters: \<open>Path.resolve\<close>,
  \<open>Path.stat\<close>, the bytes of a file, \<open>hashlib.sha256(...).hexdigest()\<close>, the text that
  PyMuPDF returns for each page of a file (\<open>page.get_text("text") or ""\<close>, or the
  exception of \<open>fitz.open\<close>), \<open>Path.name\<close>, \<open>time.time()\<close>, the supply of
  \<open>uuid.uuid4().hex\<close>, \<open>Path.exists\<close>, \<open>Path.is_file\<close>, \<open>Path.suffix\<close> and
  \<open>Path.glob\<close>. A path is the string it is written as. \<open>Path.exists\<close> and
  \<open>Path.is_file\<close> return a truth value or raise: \<open>pathlib\<close> turns the errors
  ENOENT, ENOTDIR, EBADF and ELOOP of the underlying \<open>stat\<close> into \<open>False\<close> and lets
  every other \<open>OSError\<close> (a name too long, a directory that may not be searched)
  through. \<open>Path.glob\<close> returns the paths it finds or raises.
\<close>

type_synonym bytes = string

record stat_result =
  st_mtime :: real
  st_size :: int

record env =
  e_resolve :: "pystr \<Rightarrow> pystr"
  e_stat :: "pystr \<Rightarrow> exn + stat_result"
  e_read_bytes :: "pystr \<Rightarrow> exn + bytes"
  e_sha256 :: "bytes \<Rightarrow> pystr"
  e_get_text :: "pystr \<Rightarrow> exn + pystr list"
  e_name :: "pystr \<Rightarrow> pystr"
  e_time :: real
  e_uuid4 :: "nat \<Rightarrow> uuid"
  e_exists :: "pystr \<Rightarrow> exn + bool"
  e_is_file :: "pystr \<Rightarrow> exn + bool"
  e_suffix :: "pystr \<Rightarrow> pystr"
  e_glob :: "pystr \<Rightarrow> pystr \<Rightarrow> exn + pystr list"

text \<open>config.py: the settings the claims use.\<close>

record settings =
  db_path :: pystr
  default_docs_dir :: pystr
  max_chunk_chars :: int
  min_chunk_chars :: int
  max_pages_per_chunk :: int
  default_top_k :: int
  default_snippet_chars :: int

text \<open>\<open>sha256_file\<close>: the digest of the bytes of the file, read block after block.\<close>

definition sha256_file :: "env \<Rightarrow> pystr \<Rightarrow> exn + pystr" where
  "sha256_file env p =
     (case e_read_bytes env p of Inl e \<Rightarrow> Inl e | Inr bs \<Rightarrow> Inr (e_sha256 env bs))"

text \<open>\<open>s.lower()\<close> on the letters A to Z; no other code point lower-cases to one of
  the characters of \<open>.pdf\<close>, with which the result is compared.\<close>

definition py_lower :: "pystr \<Rightarrow> pystr" where
  "py_lower s = map (\<lambda>c. if 65 \<le> c \<and> c \<le> 90 then c + 32 else c) s"

definition is_pdf :: "env \<Rightarrow> pystr \<Rightarrow> bool" where
  "is_pdf env p \<longleftrightarrow> py_lower (e_suffix env p) = u ''.pdf''"

text \<open>A loop that keeps the elements for which a test holds, the test being able to
  raise: the first exception ends the loop and is the result.\<close>

fun filter_raising :: "('a \<Rightarrow> exn + bool) \<Rightarrow> 'a list \<Rightarrow> exn + 'a list" where
  "filter_raising t [] = Inr []"
| "filter_raising t (x # xs) =
     (case t x of
        Inl e \<Rightarrow> Inl e
      | Inr b \<Rightarrow>
          (case filter_raising t xs of
             Inl e \<Rightarrow> Inl e
           | Inr ys \<Rightarrow> Inr (if b then x # ys else ys)))"

text \<open>\<open>p.is_file() and p.suffix.lower() == ".pdf"\<close>.\<close>

definition file_and_pdf :: "env \<Rightarrow> pystr \<Rightarrow> exn + bool" where
  "file_and_pdf env p =
     (case e_is_file env p of Inl e \<Rightarrow> Inl e | Inr b \<Rightarrow> Inr (b \<and> is_pdf env p))"

text \<open>\<open>iter_pdf_paths\<close>, as \<open>ingest\<close> uses it: the list of all it yields, or the
  exception raised while they are listed.\<close>

definition iter_pdf_paths :: "env \<Rightarrow> pystr \<Rightarrow> bool \<Rightarrow> exn + pystr list" where
  "iter_pdf_paths env root_dir recursive =
     (case e_is_file env root_dir of
        Inl e \<Rightarrow> Inl e
      | Inr True \<Rightarrow> Inr (if is_pdf env root_dir then [root_dir] else [])
      | Inr False \<Rightarrow>
          (case e_exists env root_dir of
             Inl e \<Rightarrow> Inl e
           | Inr False \<Rightarrow> Inr []
           | Inr True \<Rightarrow>
               (let pattern = (if recursive then u ''**/*.pdf'' else u ''*.pdf'')
                in case e_glob env root_dir pattern of
                     Inl e \<Rightarrow> Inl e
                   | Inr ps \<Rightarrow> filter_raising (file_and_pdf env) ps)))"


section \<open>Indexing one file (indexer.py)\<close>

record indexed_document =
  i_doc_id :: pystr
  i_path :: pystr
  i_filename :: pystr
  i_sha256 :: pystr
  i_mtime :: real
  i_size_bytes :: int
  i_indexed_at :: real
  i_chunks :: "chunk list"

text \<open>
  The state of the process: the connection, the number of identifiers drawn, and the
  paths on which \<open>extract_pages_text\<close> has been called (kept to state that a call
  was or was not made).
\<close>

record world =
  w_conn :: connection
  w_draws :: nat
  w_extracted :: "pystr list"

definition extract_pages_text :: "env \<Rightarrow> pystr \<Rightarrow> exn + pystr list" where
  "extract_pages_text env p =
     (case e_get_text env p of Inl e \<Rightarrow> Inl e | Inr raw \<Rightarrow> Inr (map normalize_text raw))"

definition index_pdf :: "env \<Rightarrow> settings \<Rightarrow> pystr \<Rightarrow> world \<Rightarrow> (exn + indexed_document) \<times> world" where
  "index_pdf env cfg pdf_path w =
     (case e_stat env pdf_path of
        Inl e \<Rightarrow> (Inl e, w)
      | Inr stat \<Rightarrow>
         (case sha256_file env pdf_path of
            Inl e \<Rightarrow> (Inl e, w)
          | Inr sha256 \<Rightarrow>
             (let doc_id = stable_doc_id sha256;
                  w1 = w\<lparr>w_extracted := w_extracted w @ [pdf_path]\<rparr>
              in case extract_pages_text env pdf_path of
                   Inl e \<Rightarrow> (Inl e, w1)
                 | Inr pages \<Rightarrow>
                     (let built = build_chunks (e_uuid4 env) (w_draws w1) pages doc_id
                                    (max_chunk_chars cfg) (min_chunk_chars cfg)
                                    (max_pages_per_chunk cfg)
                      in (Inr \<lparr>i_doc_id = doc_id,
                                i_path = e_resolve env pdf_path,
                                i_filename = e_name env pdf_path,
                                i_sha256 = sha256,
                                i_mtime = st_mtime stat,
                                i_size_bytes = st_size stat,
                                i_indexed_at = e_time env,
                                i_chunks = fst built\<rparr>,
                          w1\<lparr>w_draws := snd built\<rparr>)))))"


section \<open>Ingestion (app.py)\<close>

text \<open>The test that lets \<open>ingest\<close> skip a file: a row for the path, no \<open>force\<close>,
  a \<open>stat\<close> that does not raise, and the stored \<open>mtime\<close> and \<open>size_bytes\<close> equal to
  those of the \<open>stat\<close>.\<close>

definition unchanged :: "document option \<Rightarrow> bool \<Rightarrow> exn + stat_result \<Rightarrow> bool" where
  "unchanged existing force st =
     (case existing of
        None \<Rightarrow> False
      | Some ex \<Rightarrow>
          \<not> force \<and>
          (case st of
             Inl e \<Rightarrow> False
           | Inr stat \<Rightarrow> d_mtime ex = st_mtime stat \<and> d_size_bytes ex = st_size stat))"

datatype outcome = Indexed | Skipped

definition document_of :: "indexed_document \<Rightarrow> document" where
  "document_of doc =
     \<lparr>d_id = i_doc_id doc, d_path = i_path doc, d_filename = i_filename doc,
       d_sha256 = i_sha256 doc, d_mtime = i_mtime doc, d_size_bytes = i_size_bytes doc,
       d_indexed_at = i_indexed_at doc\<rparr>"

definition fts_rows_of :: "indexed_document \<Rightarrow> fts_row list" where
  "fts_rows_of doc =
     map (\<lambda>c. \<lparr>f_chunk_id = c_id c, f_document_id = c_doc_id c, f_filename = i_filename doc,
                f_path = i_path doc, f_page_start = c_page_start c,
                f_page_end = c_page_end c, f_text = c_text c\<rparr>) (i_chunks doc)"

text \<open>The body of the \<open>try\<close> for one path. An exception leaves the statements already
  executed in the open transaction.\<close>

definition ingest_file ::
  "env \<Rightarrow> settings \<Rightarrow> bool \<Rightarrow> pystr \<Rightarrow> world \<Rightarrow> (exn + outcome) \<times> world" where
  "ingest_file env cfg force pdf_path w =
     (let pdf_path_resolved = e_resolve env pdf_path;
          existing = get_document_by_path (w_conn w) pdf_path_resolved
      in
        if unchanged existing force (e_stat env pdf_path_resolved) then (Inr Skipped, w)
        else
          case index_pdf env cfg pdf_path_resolved w of
            (Inl e, w1) \<Rightarrow> (Inl e, w1)
          | (Inr doc, w1) \<Rightarrow>
              (let c1 = (case existing of
                           None \<Rightarrow> w_conn w1
                         | Some ex \<Rightarrow> delete_document_chunks (w_conn w1) (d_id ex));
                   c2 = upsert_document c1 (document_of doc)
               in case insert_chunks c2 (i_chunks doc) of
                    (Inl e, c3) \<Rightarrow> (Inl e, w1\<lparr>w_conn := c3\<rparr>)
                  | (Inr _, c3) \<Rightarrow>
                      (Inr Indexed,
                       w1\<lparr>w_conn := commit (insert_fts_rows c3 (fts_rows_of doc))\<rparr>)))"

record batch =
  r_indexed :: int
  r_skipped :: int
  r_errors :: "(pystr \<times> exn) list"
  r_world :: world

text \<open>One iteration of \<open>for pdf_path in pdf_paths\<close>, with the \<open>except\<close> clause.\<close>

definition file_step :: "env \<Rightarrow> settings \<Rightarrow> bool \<Rightarrow> batch \<Rightarrow> pystr \<Rightarrow> batch" where
  "file_step env cfg force r pdf_path =
     (case ingest_file env cfg force pdf_path (r_world r) of
        (Inr Skipped, w1) \<Rightarrow> r\<lparr>r_skipped := r_skipped r + 1, r_world := w1\<rparr>
      | (Inr Indexed, w1) \<Rightarrow> r\<lparr>r_indexed := r_indexed r + 1, r_world := w1\<rparr>
      | (Inl e, w1) \<Rightarrow>
          r\<lparr>r_errors := r_errors r @ [(pdf_path, e)],
            r_world := w1\<lparr>w_conn := rollback (w_conn w1)\<rparr>\<rparr>)"

definition ingest_paths :: "env \<Rightarrow> settings \<Rightarrow> bool \<Rightarrow> pystr list \<Rightarrow> world \<Rightarrow> batch" where
  "ingest_paths env cfg force pdf_paths w =
     foldl (file_step env cfg force)
       \<lparr>r_indexed = 0, r_skipped = 0, r_errors = [], r_world = w\<rparr> pdf_paths"

text \<open>The JSON body of \<open>POST /ingest\<close>; an absent key is \<open>None\<close>.\<close>

record ingest_body =
  ib_input_dir :: "pystr option"
  ib_files :: "pystr list option"
  ib_recursive :: "bool option"
  ib_force :: "bool option"

text \<open>\<open>p.exists() and p.is_file() and p.suffix.lower() == ".pdf"\<close>: \<open>and\<close> stops at
  the first operand that is false, so \<open>is_file\<close> is called only for a path that
  exists.\<close>

definition listed_ok :: "env \<Rightarrow> pystr \<Rightarrow> exn + bool" where
  "listed_ok env p =
     (case e_exists env p of
        Inl e \<Rightarrow> Inl e
      | Inr False \<Rightarrow> Inr False
      | Inr True \<Rightarrow> file_and_pdf env p)"

text \<open>The paths of the batch. They are listed before the loop over the files and
  outside its \<open>try\<close>.\<close>

definition candidate_paths :: "env \<Rightarrow> settings \<Rightarrow> ingest_body \<Rightarrow> exn + pystr list" where
  "candidate_paths env cfg body =
     (let recursive = (case ib_recursive body of None \<Rightarrow> True | Some b \<Rightarrow> b) in
      case ib_files body of
        Some (f # fs) \<Rightarrow> filter_raising (listed_ok env) (f # fs)
      | _ \<Rightarrow>
          (let base = (case ib_input_dir body of
                         Some (c # cs) \<Rightarrow> c # cs
                       | _ \<Rightarrow> default_docs_dir cfg)
           in iter_pdf_paths env base recursive))"

text \<open>The view: its result, or the exception that leaves it (Flask answers that with
  status 500).\<close>

definition ingest :: "env \<Rightarrow> settings \<Rightarrow> ingest_body \<Rightarrow> world \<Rightarrow> exn + batch" where
  "ingest env cfg body w =
     (case candidate_paths env cfg body of
        Inl e \<Rightarrow> Inl e
      | Inr pdf_paths \<Rightarrow>
          Inr (ingest_paths env cfg (case ib_force body of None \<Rightarrow> False | Some b \<Rightarrow> b)
                 pdf_paths w))"


section \<open>Query (app.py)\<close>

record query_body =
  qb_query :: "pystr option"
  qb_top_k :: "int option"
  qb_snippet_chars :: "int option"

record payload_item =
  p_doc_id :: pystr
  p_filename :: pystr
  p_path :: pystr
  p_pages :: "int list"
  p_page_start :: int
  p_page_end :: int
  p_score :: real
  p_snippet :: pystr

text \<open>The replies of \<open>POST /query\<close>: the error with status 400, the results with
  status 200, and the status 500 that Flask gives to an exception of the view.\<close>

datatype reply =
  MissingQuery
  | Results pystr int "payload_item list"
  | ServerError exn

fun status :: "reply \<Rightarrow> int" where
  "status MissingQuery = 400"
| "status (Results q k rs) = 200"
| "status (ServerError e) = 500"

text \<open>\<open>x or d\<close> for an optional integer: an absent key and 0 give the default.\<close>

definition or_default :: "int option \<Rightarrow> int \<Rightarrow> int" where
  "or_default x d = (case x of None \<Rightarrow> d | Some k \<Rightarrow> if k = 0 then d else k)"

definition payload_of :: "search_result \<Rightarrow> payload_item" where
  "payload_of r =
     \<lparr>p_doc_id = sr_doc_id r, p_filename = sr_filename r, p_path = sr_path r,
       p_pages = [sr_page_start r .. sr_page_end r],
       p_page_start = sr_page_start r, p_page_end = sr_page_end r,
       p_score = sr_score r, p_snippet = sr_snippet r\<rparr>"

text \<open>The view returns its reply; the model returns with it the calls of
  \<open>search_chunks\<close> it made, each as (query, top_k, snippet_chars).\<close>

definition query ::
  "fts_engine \<Rightarrow> settings \<Rightarrow> connection \<Rightarrow> query_body \<Rightarrow> reply \<times> (pystr \<times> int \<times> int) list" where
  "query eng cfg conn body =
     (let q = py_strip (case qb_query body of None \<Rightarrow> [] | Some s \<Rightarrow> s) in
      if q = [] then (MissingQuery, [])
      else
        let top_k = or_default (qb_top_k body) (default_top_k cfg);
            snippet_chars = or_default (qb_snippet_chars body) (default_snippet_chars cfg)
        in case search_chunks eng conn q top_k snippet_chars of
             Inl e \<Rightarrow> (ServerError e, [(q, top_k, snippet_chars)])
           | Inr results \<Rightarrow>
               (Results q top_k (map payload_of results), [(q, top_k, snippet_chars)]))"

text \<open>A request body is blank when the key \<open>query\<close> is absent or its string has
  only white space (the empty string included).\<close>

definition blank_query :: "query_body \<Rightarrow> bool" where
  "blank_query body \<longleftrightarrow>
     (case qb_query body of None \<Rightarrow> True | Some s \<Rightarrow> list_all is_space s)"

text \<open>No transaction is open: the connection holds nothing uncommitted.\<close>

definition clean :: "world \<Rightarrow> bool" where
  "clean w \<longleftrightarrow> working (w_conn w) = committed (w_conn w)"


section \<open>Example environments\<close>

text \<open>
  A small file system to run the model on: each path has its bytes, its \<open>mtime\<close> and
  the page texts the extractor returns for it (or the exception it raises). Paths are
  canonical already; the size is the number of bytes; \<open>name_of\<close> and \<open>suffix_of\<close>
  follow \<open>Path.name\<close> and \<open>Path.suffix\<close> on POSIX paths; the digest is replaced by the
  bytes themselves, read as text, so that equal digests mean equal bytes. A name of
  more than 255 characters is refused by the file system: \<open>exists\<close> and \<open>is_file\<close>
  raise for it (ENAMETOOLONG).
\<close>

record file_entry =
  fe_bytes :: bytes
  fe_mtime :: real
  fe_pages :: "exn + pystr list"

definition name_of :: "pystr \<Rightarrow> pystr" where
  "name_of p = rev (takeWhile (\<lambda>c. c \<noteq> 47) (rev p))"

definition suffix_of :: "pystr \<Rightarrow> pystr" where
  "suffix_of p =
     (let name = name_of p; ext = rev (takeWhile (\<lambda>c. c \<noteq> 46) (rev name))
      in if ext = [] \<or> length ext = length name \<or> Suc (length ext) = length name then []
         else 46 # ext)"

definition fs_env :: "(pystr \<times> file_entry) list \<Rightarrow> (nat \<Rightarrow> uuid) \<Rightarrow> real \<Rightarrow> env" where
  "fs_env files uuid4 now =
     \<lparr>e_resolve = (\<lambda>p. p),
       e_stat = (\<lambda>p. case map_of files p of
                        None \<Rightarrow> Inl OSError
                      | Some f \<Rightarrow> Inr \<lparr>st_mtime = fe_mtime f, st_size = int (length (fe_bytes f))\<rparr>),
       e_read_bytes = (\<lambda>p. case map_of files p of None \<Rightarrow> Inl OSError | Some f \<Rightarrow> Inr (fe_bytes f)),
       e_sha256 = u,
       e_get_text = (\<lambda>p. case map_of files p of None \<Rightarrow> Inl OSError | Some f \<Rightarrow> fe_pages f),
       e_name = name_of,
       e_time = now,
       e_uuid4 = uuid4,
       e_exists = (\<lambda>p. if 255 < length (name_of p) then Inl OSError
                       else Inr (map_of files p \<noteq> None)),
       e_is_file = (\<lambda>p. if 255 < length (name_of p) then Inl OSError
                        else Inr (map_of files p \<noteq> None)),
       e_suffix = suffix_of,
       e_glob = (\<lambda>d pattern. Inr (map fst files))\<rparr>"

text \<open>The defaults of \<open>load_settings\<close>.\<close>

definition cfg0 :: settings where
  "cfg0 = \<lparr>db_path = u ''./data/rag.sqlite3'', default_docs_dir = u ''./docs'',
           max_chunk_chars = 8000, min_chunk_chars = 1200, max_pages_per_chunk = 3,
           default_top_k = 5, default_snippet_chars = 800\<rparr>"

definition world0 :: world where
  "world0 = \<lparr>w_conn = init_db, w_draws = 0, w_extracted = []\<rparr>"

definition file_x :: file_entry where
  "file_x = \<lparr>fe_bytes = ''X'', fe_mtime = 1, fe_pages = Inr [u ''old'']\<rparr>"

definition file_y :: file_entry where
  "file_y = \<lparr>fe_bytes = ''YY'', fe_mtime = 2, fe_pages = Inr [u ''new'']\<rparr>"

definition file_bad :: file_entry where
  "file_bad = \<lparr>fe_bytes = ''Z'', fe_mtime = 3, fe_pages = Inl ExtractionError\<rparr>"

text \<open>One file; then the same path after its content has changed.\<close>

definition env_v1 :: env where
  "env_v1 = fs_env [(u ''/a.pdf'', file_x)] (\<lambda>n. n) 100"

definition env_v2 :: env where
  "env_v2 = fs_env [(u ''/a.pdf'', file_y)] (\<lambda>n. n) 200"

text \<open>Two paths with the same bytes.\<close>

definition env_twins :: env where
  "env_twins = fs_env [(u ''/a.pdf'', file_x), (u ''/b.pdf'', file_x)] (\<lambda>n. n) 100"

text \<open>A file that the extractor rejects between two that it reads; a text file; a file
  with an upper-case suffix.\<close>

definition env_mixed :: env where
  "env_mixed = fs_env [(u ''/a.pdf'', file_x), (u ''/c.pdf'', file_bad), (u ''/d.pdf'', file_y),
                       (u ''/e.txt'', file_x), (u ''/F.PDF'', file_y)] (\<lambda>n. n) 100"

text \<open>An identifier supply that repeats itself: the second file's chunk collides with
  the first one's on the primary key.\<close>

definition env_clash :: env where
  "env_clash = fs_env [(u ''/a.pdf'', file_x), (u ''/d.pdf'', file_y)] (\<lambda>n. 7) 100"

text \<open>The state after the two files with the same bytes have been ingested in one
  batch into the empty store.\<close>

definition world_twins :: world where
  "world_twins =
     r_world (ingest_paths env_twins cfg0 False [u ''/a.pdf'', u ''/b.pdf''] world0)"

text \<open>The state after the one file has been ingested into the empty store.\<close>

definition world_v1 :: world where
  "world_v1 = r_world (ingest_paths env_v1 cfg0 False [u ''/a.pdf''] world0)"

text \<open>A path that does not exist and whose name has 300 characters, and a request
  that lists a file and this path.\<close>

definition long_path :: pystr where
  "long_path = 47 # replicate 300 97"

definition body_long :: ingest_body where
  "body_long =
     \<lparr>ib_input_dir = None, ib_files = Some [u ''/a.pdf'', long_path],
       ib_recursive = None, ib_force = None\<rparr>"

text \<open>A request that lists five paths: one is missing and one is a text file.\<close>

definition body_listed :: ingest_body where
  "body_listed =
     \<lparr>ib_input_dir = None,
       ib_files = Some [u ''/a.pdf'', u ''/zz.pdf'', u ''/e.txt'', u ''/c.pdf'', u ''/F.PDF''],
       ib_recursive = None, ib_force = None\<rparr>"

text \<open>An engine that accepts every query, matches every row and scores a row by its
  first page.\<close>

definition eng0 :: fts_engine where
  "eng0 = \<lparr>fts_accepts = (\<lambda>q. True), fts_match = (\<lambda>q r. True),
           fts_bm25 = (\<lambda>q tbl r. real_of_int (f_page_start r)),
           fts_snippet = (\<lambda>q n r. f_text r)\<rparr>"


section \<open>Evaluation of the model on concrete inputs\<close>

lemmas text_defs = u_def normalize_text_def py_strip_def py_split_def is_space_def py_lower_def
lemmas chunk_defs = build_chunks_def builder_init_def page_step_def flush_def enumerate_eq_zip
  Let_def ranges_def
lemmas store_defs = init_db_def commit_def rollback_def upsert_document_def upsert_row_def
  get_document_by_path_def delete_document_chunks_def insert_fts_rows_def
lemmas ingest_defs = ingest_paths_def file_step_def ingest_file_def index_pdf_def unchanged_def
  sha256_file_def stable_doc_id_def extract_pages_text_def document_of_def fts_rows_of_def
lemmas example_defs = fs_env_def cfg0_def world0_def file_x_def file_y_def name_of_def suffix_of_def
lemmas run_defs = text_defs chunk_defs store_defs ingest_defs example_defs


section \<open>Properties of text normalisation\<close>

lemma length_py_strip_le: "length (py_strip s) \<le> length s"
proof -
  have "length (dropWhile is_space (rev (dropWhile is_space s))) \<le> length (rev (dropWhile is_space s))"
    by (rule length_dropWhile_le)
  also have "\<dots> \<le> length s"
    by (simp add: length_dropWhile_le)
  finally show ?thesis by (simp add: py_strip_def)
qed

lemma length_py_join_Cons:
  "length (py_join [c] (x # xs)) \<le> length x + 1 + length (py_join [c] xs)"
  by (cases xs) simp_all

lemma length_join_split_from:
  "length (py_join [c] (split_from w cs)) \<le> length w + length cs"
proof (induction cs arbitrary: w)
  case Nil
  then show ?case by simp
next
  case (Cons a cs)
  show ?case
  proof (cases "is_space a")
    case True
    have ih: "length (py_join [c] (split_from [] cs)) \<le> length cs"
      using Cons.IH [of "[]"] by simp
    show ?thesis
    proof (cases "w = []")
      case True
      with \<open>is_space a\<close> ih show ?thesis by simp
    next
      case False
      have "length (py_join [c] (w # split_from [] cs))
              \<le> length w + 1 + length (py_join [c] (split_from [] cs))"
        by (rule length_py_join_Cons)
      with False \<open>is_space a\<close> ih show ?thesis by simp
    qed
  next
    case False
    with Cons.IH [of "w @ [a]"] show ?thesis by simp
  qed
qed

lemma length_normalize_text_le: "length (normalize_text s) \<le> length s"
proof -
  let ?t = "map (\<lambda>c. if c = 160 then 32 else c) s"
  have "length (normalize_text s) \<le> length (py_join [32] (py_split ?t))"
    unfolding normalize_text_def by (rule length_py_strip_le)
  also have "\<dots> \<le> length ?t"
    using length_join_split_from [of 32 "[]" ?t] by (simp add: py_split_def)
  finally show ?thesis by simp
qed

lemma py_join_snoc:
  "py_join sep (xs @ [x]) = (if xs = [] then x else py_join sep xs @ sep @ x)"
  by (induction sep xs rule: py_join.induct) simp_all

lemma length_py_join_snoc_ge: "length x \<le> length (py_join sep (xs @ [x]))"
  by (simp add: py_join_snoc)

lemma normalize_text_Nil: "normalize_text [] = []"
  by (simp add: normalize_text_def py_split_def py_strip_def)


section \<open>Properties of the chunker\<close>

lemma flush_props:
  "\<exists>new. b_chunks (flush f d b) = b_chunks b @ new
       \<and> (\<forall>c\<in>set new. c_page_start c = b_current_start b)
       \<and> b_buf (flush f d b) = []"
  by (simp add: flush_def Let_def)

lemma page_step_inv:
  assumes "Q (int (fst it))" and "b_buf b \<noteq> [] \<longrightarrow> Q (b_current_start b)"
  shows "\<exists>new. b_chunks (page_step f d mx mn mp b it) = b_chunks b @ new
           \<and> (\<forall>c\<in>set new. Q (c_page_start c))
           \<and> (b_buf (page_step f d mx mn mp b it) \<noteq> []
                \<longrightarrow> Q (b_current_start (page_step f d mx mn mp b it)))"
  using assms by (auto simp: page_step_def flush_def Let_def)

lemma foldl_page_step_inv:
  assumes "\<forall>it\<in>set items. Q (int (fst it))" and "b_buf b \<noteq> [] \<longrightarrow> Q (b_current_start b)"
  shows "\<exists>new. b_chunks (foldl (page_step f d mx mn mp) b items) = b_chunks b @ new
           \<and> (\<forall>c\<in>set new. Q (c_page_start c))
           \<and> (b_buf (foldl (page_step f d mx mn mp) b items) \<noteq> []
                \<longrightarrow> Q (b_current_start (foldl (page_step f d mx mn mp) b items)))"
  using assms
proof (induction items arbitrary: b)
  case Nil
  then show ?case by simp
next
  case (Cons it items)
  let ?b1 = "page_step f d mx mn mp b it"
  from Cons.prems obtain n1 where
    s1: "b_chunks ?b1 = b_chunks b @ n1" "\<forall>c\<in>set n1. Q (c_page_start c)"
        "b_buf ?b1 \<noteq> [] \<longrightarrow> Q (b_current_start ?b1)"
    using page_step_inv [of Q it b f d mx mn mp] by auto
  from Cons.prems have "\<forall>it\<in>set items. Q (int (fst it))" by simp
  from Cons.IH [OF this s1(3)] obtain n2 where
    s2: "b_chunks (foldl (page_step f d mx mn mp) ?b1 items) = b_chunks ?b1 @ n2"
        "\<forall>c\<in>set n2. Q (c_page_start c)"
        "b_buf (foldl (page_step f d mx mn mp) ?b1 items) \<noteq> []
           \<longrightarrow> Q (b_current_start (foldl (page_step f d mx mn mp) ?b1 items))"
    by auto
  show ?case
    apply (rule exI [of _ "n1 @ n2"])
    using s1 s2 by auto
qed

lemma flush_foldl_inv:
  assumes "\<forall>it\<in>set items. Q (int (fst it))" and "b_buf b \<noteq> [] \<longrightarrow> Q (b_current_start b)"
  shows "\<exists>new. b_chunks (flush f d (foldl (page_step f d mx mn mp) b items)) = b_chunks b @ new
           \<and> (\<forall>c\<in>set new. Q (c_page_start c))"
proof -
  let ?b1 = "foldl (page_step f d mx mn mp) b items"
  from foldl_page_step_inv [OF assms, of f d mx mn mp] obtain n1 where
    s1: "b_chunks ?b1 = b_chunks b @ n1" "\<forall>c\<in>set n1. Q (c_page_start c)"
        "b_buf ?b1 \<noteq> [] \<longrightarrow> Q (b_current_start ?b1)"
    by auto
  from flush_props [of f d ?b1] obtain n2 where
    s2: "b_chunks (flush f d ?b1) = b_chunks ?b1 @ n2"
        "\<forall>c\<in>set n2. c_page_start c = b_current_start ?b1"
    by auto
  have "b_buf ?b1 = [] \<Longrightarrow> n2 = []"
    using s2(1) by (simp add: flush_def)
  with s1(3) s2(2) have "\<forall>c\<in>set n2. Q (c_page_start c)"
    by (cases "b_buf ?b1 = []") auto
  with s1 s2 show ?thesis
    by (intro exI [of _ "n1 @ n2"]) auto
qed

lemma page_step_arrival:
  assumes "text \<noteq> []" and "mx < int (length text)"
    and "b_buf b \<noteq> [] \<longrightarrow> Q (b_current_start b)"
  shows "\<exists>new. b_chunks (page_step f d mx mn mp b (idx, text)) = b_chunks b @ new
           \<and> (\<forall>c\<in>set new. Q (c_page_start c))
           \<and> b_buf (page_step f d mx mn mp b (idx, text)) = [text]
           \<and> b_current_start (page_step f d mx mn mp b (idx, text)) = int idx
           \<and> b_current_end (page_step f d mx mn mp b (idx, text)) = int idx"
proof (cases "b_buf b = []")
  case True
  with assms show ?thesis by (simp add: page_step_def Let_def)
next
  case False
  have "length text \<le> length (py_join [10] (b_buf b @ [text]))"
    by (rule length_py_join_snoc_ge)
  with assms(2) have long: "\<not> int (length (py_join [10] (b_buf b @ [text]))) \<le> mx"
    by linarith
  from False assms(3) have q: "Q (b_current_start b)" by simp
  show ?thesis
    using False assms(1) long q by (auto simp: page_step_def flush_def Let_def)
qed

lemma page_step_after_long:
  assumes "b_buf b = [big]" and "mx < int (length big)" and "mn \<le> mx"
    and "normalize_text big \<noteq> []" and "text \<noteq> []"
  shows "page_step f d mx mn mp b (idx, text) =
           b\<lparr>b_chunks := b_chunks b @
                 [\<lparr>c_id = f (b_draws b), c_doc_id = d, c_page_start = b_current_start b,
                   c_page_end = b_current_end b, c_text = normalize_text big\<rparr>],
              b_draws := Suc (b_draws b), b_buf := [text],
              b_current_start := int idx, b_current_end := int idx\<rparr>"
proof -
  have "length text \<le> length (py_join [10] ([big] @ [text]))"
    by simp
  have long: "\<not> int (length (py_join [10] ([big] @ [text]))) \<le> mx"
    using assms(2) by simp
  have nomin: "\<not> int (length (py_join [10] [big])) < mn"
    using assms(2,3) by simp
  show ?thesis
    using assms(1,4,5) long nomin by (simp add: page_step_def flush_def Let_def)
qed

lemma holding_long_page:
  assumes "b_buf b = [big]" and "b_current_start b = p" and "b_current_end b = p"
    and "mx < int (length big)" and "mn \<le> mx" and "normalize_text big \<noteq> []"
    and "\<forall>it\<in>set items. p < int (fst it)"
  shows "\<exists>c rest. b_chunks (flush f d (foldl (page_step f d mx mn mp) b items))
                     = b_chunks b @ [c] @ rest
           \<and> c_page_start c = p \<and> c_page_end c = p \<and> c_text c = normalize_text big
           \<and> (\<forall>c'\<in>set rest. p < c_page_start c')"
  using assms
proof (induction items arbitrary: b)
  case Nil
  then show ?case by (simp add: flush_def Let_def)
next
  case (Cons it items)
  obtain idx t where it: "it = (idx, t)" by (cases it)
  show ?case
  proof (cases "t = []")
    case True
    then have same: "page_step f d mx mn mp b it = b"
      by (simp add: page_step_def it)
    from Cons.prems have "\<forall>it\<in>set items. p < int (fst it)" by simp
    from Cons.IH [OF Cons.prems(1-6) this] same show ?thesis by simp
  next
    case False
    let ?c = "\<lparr>c_id = f (b_draws b), c_doc_id = d, c_page_start = b_current_start b,
                c_page_end = b_current_end b, c_text = normalize_text big\<rparr>"
    let ?b1 = "page_step f d mx mn mp b it"
    have b1: "?b1 = b\<lparr>b_chunks := b_chunks b @ [?c],
                b_draws := Suc (b_draws b), b_buf := [t],
                b_current_start := int idx, b_current_end := int idx\<rparr>"
      unfolding it
      by (rule page_step_after_long [OF Cons.prems(1) Cons.prems(4) Cons.prems(5) Cons.prems(6) False])
    from Cons.prems(7) it have "p < int idx" by simp
    with b1 have q: "b_buf ?b1 \<noteq> [] \<longrightarrow> p < b_current_start ?b1" by simp
    from Cons.prems(7) have "\<forall>it\<in>set items. p < int (fst it)" by simp
    from flush_foldl_inv [of items "\<lambda>x. p < x", OF this q, of f d mx mn mp]
    obtain rest where
      r: "b_chunks (flush f d (foldl (page_step f d mx mn mp) ?b1 items)) = b_chunks ?b1 @ rest"
         "\<forall>c\<in>set rest. p < c_page_start c"
      by auto
    have "b_chunks (flush f d (foldl (page_step f d mx mn mp) b (it # items)))
            = b_chunks b @ [?c] @ rest"
      using r(1) b1 by simp
    moreover have "c_page_start ?c = p" "c_page_end ?c = p" "c_text ?c = normalize_text big"
      using Cons.prems(2,3) by simp_all
    ultimately show ?thesis using r(2) by blast
  qed
qed


text \<open>The scenario of four pages, the second empty, with \<open>max_chunk_chars = 1000\<close>,
  \<open>min_chunk_chars = 10\<close> and \<open>max_pages_per_chunk = 3\<close>: pages 1 and 3 are merged
  (the empty page counts in the span), page 4 starts the next chunk.\<close>

lemma build_chunks_scenario:
  "ranges (fst (build_chunks (\<lambda>n. n) 0
     [u ''Intro text'', [], u ''Body text covering topic A'', u ''More body text'']
     (u ''d'') 1000 10 3)) = [(1, 3), (4, 4)]"
  by (simp add: text_defs chunk_defs)

text \<open>
  C3. Claim: for a list of pages none of which is empty, the page ranges of the chunks,
  in order, partition \<open>1..N\<close>. The code does not do this: when the page that does not
  fit arrives while the buffer is shorter than \<open>min_chunk_chars\<close>, the page is appended
  to the buffer, the buffer is flushed, and the next chunk is started with the same page.
  For the two pages \<open>a\<close> and \<open>bbbb\<close> with \<open>max_chunk_chars = 3\<close>,
  \<open>min_chunk_chars = 2\<close> and \<open>max_pages_per_chunk = 3\<close> the ranges are \<open>[1, 2]\<close> and
  \<open>[2, 2]\<close>: page 2 is in both chunks.
\<close>

theorem build_chunks_overlap:
  "ranges (fst (build_chunks (\<lambda>n. n) 0 [u ''a'', u ''bbbb''] (u ''d'') 3 2 3)) = [(1, 2), (2, 2)]
   \<and> map c_text (fst (build_chunks (\<lambda>n. n) 0 [u ''a'', u ''bbbb''] (u ''d'') 3 2 3))
       = [u ''a bbbb'', u ''bbbb'']"
  by (simp add: text_defs chunk_defs)

text \<open>
  What does hold for a long page. With \<open>min_chunk_chars \<le> max_chunk_chars\<close>, for every
  page (index \<open>i\<close> from 0, page number \<open>i + 1\<close>) that is not empty after normalisation
  and whose normalised text is longer than \<open>max_chunk_chars\<close>: exactly one chunk of
  the output starts at that page, it ends there, and its text is the whole normalised
  text of the page. The page is not cut in pieces; whether another chunk holds it as
  well is not said here.
\<close>

lemma long_page_own_chunk:
  assumes "mn \<le> mx" and "i < length pages"
    and "normalize_text (pages ! i) \<noteq> []"
    and "mx < int (length (normalize_text (pages ! i)))"
  shows "\<exists>c. filter (\<lambda>c. c_page_start c = int i + 1) (fst (build_chunks f n pages d mx mn mp)) = [c]
           \<and> filter (\<lambda>c. c_page_start c = int i + 1 \<and> c_page_end c = int i + 1)
                (fst (build_chunks f n pages d mx mn mp)) = [c]
           \<and> c_text c = normalize_text (pages ! i)"
proof -
  let ?big = "pages ! i"
  let ?p = "int i + 1"
  let ?step = "page_step f d mx mn mp"
  let ?pre = "enumerate 1 (take i pages)"
  let ?post = "enumerate (Suc (Suc i)) (drop (Suc i) pages)"
  have split: "enumerate 1 pages = ?pre @ (Suc i, ?big) # ?post"
  proof -
    have "pages = take i pages @ ?big # drop (Suc i) pages"
      using assms(2) by (rule id_take_nth_drop)
    then have "enumerate 1 pages = enumerate 1 (take i pages @ ?big # drop (Suc i) pages)"
      by simp
    also have "\<dots> = ?pre @ (Suc i, ?big) # ?post"
      using assms(2) by (simp add: enumerate_append_eq min_def)
    finally show ?thesis .
  qed
  have nonempty: "?big \<noteq> []"
    using assms(3) normalize_text_Nil by auto
  have long: "mx < int (length ?big)"
    using assms(4) length_normalize_text_le [of ?big] by linarith
  let ?b0 = "builder_init n"
  let ?b1 = "foldl ?step ?b0 ?pre"
  let ?b2 = "?step ?b1 (Suc i, ?big)"
  have pre_idx: "\<forall>it\<in>set ?pre. int (fst it) < ?p"
    using assms(2) by (auto simp: in_set_enumerate_eq)
  have "b_buf ?b0 \<noteq> [] \<longrightarrow> b_current_start ?b0 < ?p"
    by (simp add: builder_init_def)
  from foldl_page_step_inv [of ?pre "\<lambda>x. x < ?p", OF pre_idx this, of f d mx mn mp]
  obtain n1 where
    s1: "b_chunks ?b1 = b_chunks ?b0 @ n1" "\<forall>c\<in>set n1. c_page_start c < ?p"
        "b_buf ?b1 \<noteq> [] \<longrightarrow> b_current_start ?b1 < ?p"
    by auto
  from page_step_arrival [of ?big mx ?b1 "\<lambda>x. x < ?p", OF nonempty long s1(3), of f d mn mp "Suc i"]
  obtain n2 where
    s2: "b_chunks ?b2 = b_chunks ?b1 @ n2" "\<forall>c\<in>set n2. c_page_start c < ?p"
        "b_buf ?b2 = [?big]" "b_current_start ?b2 = ?p" "b_current_end ?b2 = ?p"
    by auto
  have post_idx: "\<forall>it\<in>set ?post. ?p < int (fst it)"
    by (auto simp: in_set_enumerate_eq)
  from holding_long_page [OF s2(3) s2(4) s2(5) long assms(1) assms(3) post_idx, of f d mp]
  obtain c rest where
    s3: "b_chunks (flush f d (foldl ?step ?b2 ?post)) = b_chunks ?b2 @ [c] @ rest"
        "c_page_start c = ?p" "c_page_end c = ?p" "c_text c = normalize_text ?big"
        "\<forall>c'\<in>set rest. ?p < c_page_start c'"
    by blast
  have run: "foldl ?step ?b0 (enumerate 1 pages) = foldl ?step ?b2 ?post"
    by (simp only: split foldl_append foldl_Cons)
  have "b_chunks ?b0 = []"
    by (simp add: builder_init_def)
  with s1(1) s2(1) s3(1) have "b_chunks (flush f d (foldl ?step ?b2 ?post)) = n1 @ n2 @ [c] @ rest"
    by simp
  then have out: "fst (build_chunks f n pages d mx mn mp) = n1 @ n2 @ [c] @ rest"
    unfolding build_chunks_def Let_def fst_conv run .
  have f1: "filter (\<lambda>c. c_page_start c = ?p) n1 = []"
    using s1(2) by (auto simp: filter_empty_conv)
  have f2: "filter (\<lambda>c. c_page_start c = ?p) n2 = []"
    using s2(2) by (auto simp: filter_empty_conv)
  have f3: "filter (\<lambda>c. c_page_start c = ?p) rest = []"
    using s3(5) by (auto simp: filter_empty_conv)
  have g1: "filter (\<lambda>c. c_page_start c = ?p \<and> c_page_end c = ?p) n1 = []"
    using s1(2) by (auto simp: filter_empty_conv)
  have g2: "filter (\<lambda>c. c_page_start c = ?p \<and> c_page_end c = ?p) n2 = []"
    using s2(2) by (auto simp: filter_empty_conv)
  have g3: "filter (\<lambda>c. c_page_start c = ?p \<and> c_page_end c = ?p) rest = []"
    using s3(5) by (auto simp: filter_empty_conv)
  show ?thesis
    unfolding out using f1 f2 f3 g1 g2 g3 s3(2,3,4) by (intro exI [of _ c]) simp
qed



section \<open>Properties of the store\<close>

lemma insert_chunks_committed: "committed (snd (insert_chunks conn rows)) = committed conn"
  by (induction rows arbitrary: conn) simp_all

lemma upsert_document_committed: "committed (upsert_document conn d) = committed conn"
  by (simp add: upsert_document_def)

lemma delete_document_chunks_committed:
  "committed (delete_document_chunks conn i) = committed conn"
  by (simp add: delete_document_chunks_def)

lemma insert_chunks_documents:
  "documents (working (snd (insert_chunks conn rows))) = documents (working conn)"
  by (induction rows arbitrary: conn) simp_all

lemma upsert_row_ids:
  "map d_id (upsert_row rows d)
     = (if d_id d \<in> set (map d_id rows) then map d_id rows else map d_id rows @ [d_id d])"
proof -
  have "map d_id (map (\<lambda>r. if d_id r = d_id d then d else r) rows) = map d_id rows"
    by (induction rows) simp_all
  then show ?thesis by (simp add: upsert_row_def)
qed

lemma upsert_row_distinct:
  "distinct (map d_id rows) \<Longrightarrow> distinct (map d_id (upsert_row rows d))"
  by (simp add: upsert_row_ids)

lemma filter_replace_distinct:
  assumes "distinct (map d_id rows)" and "i \<in> set (map d_id rows)"
  shows "filter (\<lambda>r. d_id r = i) (map (\<lambda>r. if d_id r = i then d else r) rows)
           = (if d_id d = i then [d] else [])"
  using assms
proof (induction rows)
  case Nil
  then show ?case by simp
next
  case (Cons r rows)
  show ?case
  proof (cases "d_id r = i")
    case True
    with Cons.prems have "i \<notin> set (map d_id rows)" by auto
    then have "filter (\<lambda>r. d_id r = i) (map (\<lambda>r. if d_id r = i then d else r) rows) = []"
      by (auto simp: filter_empty_conv image_iff)
    with True show ?thesis by simp
  next
    case False
    with Cons.prems have "distinct (map d_id rows)" "i \<in> set (map d_id rows)" by auto
    from Cons.IH [OF this] False show ?thesis by simp
  qed
qed

lemma upsert_row_filter:
  assumes "distinct (map d_id rows)"
  shows "filter (\<lambda>r. d_id r = d_id d) (upsert_row rows d) = [d]"
proof (cases "d_id d \<in> set (map d_id rows)")
  case True
  with filter_replace_distinct [OF assms True, of d] show ?thesis
    by (simp add: upsert_row_def)
next
  case False
  then have "filter (\<lambda>r. d_id r = d_id d) rows = []"
    by (auto simp: filter_empty_conv image_iff)
  with False show ?thesis by (simp add: upsert_row_def)
qed

lemma find_replace:
  assumes "\<forall>r\<in>set rows. d_path r = d_path d \<longrightarrow> d_id r = d_id d"
    and "d_id d \<in> set (map d_id rows)"
  shows "find (\<lambda>r. d_path r = d_path d) (map (\<lambda>r. if d_id r = d_id d then d else r) rows) = Some d"
  using assms
proof (induction rows)
  case Nil
  then show ?case by simp
next
  case (Cons r rows)
  show ?case
  proof (cases "d_id r = d_id d")
    case True
    then show ?thesis by simp
  next
    case False
    with Cons.prems have np: "d_path r \<noteq> d_path d" by auto
    from False Cons.prems have "\<forall>r\<in>set rows. d_path r = d_path d \<longrightarrow> d_id r = d_id d"
      "d_id d \<in> set (map d_id rows)" by auto
    from Cons.IH [OF this] False np show ?thesis by simp
  qed
qed

lemma find_append_new:
  assumes "\<forall>r\<in>set rows. \<not> P r" and "P d"
  shows "find P (rows @ [d]) = Some d"
  using assms by (induction rows) simp_all

lemma upsert_row_find:
  assumes "\<forall>r\<in>set rows. d_path r = d_path d \<longrightarrow> d_id r = d_id d"
  shows "find (\<lambda>r. d_path r = d_path d) (upsert_row rows d) = Some d"
proof (cases "d_id d \<in> set (map d_id rows)")
  case True
  with find_replace [OF assms True] show ?thesis by (simp add: upsert_row_def)
next
  case False
  with assms have "\<forall>r\<in>set rows. \<not> d_path r = d_path d" by (auto simp: image_iff)
  then have "find (\<lambda>r. d_path r = d_path d) (rows @ [d]) = Some d"
    by (rule find_append_new) simp
  with False show ?thesis by (simp add: upsert_row_def)
qed


section \<open>Properties of ingestion\<close>

lemma index_pdf_conn: "w_conn (snd (index_pdf env cfg p w)) = w_conn w"
  by (simp add: index_pdf_def Let_def split: sum.splits)

lemma index_pdf_Inr:
  assumes "index_pdf env cfg rp w = (Inr doc, w0)"
  shows "\<exists>st sha. e_stat env rp = Inr st \<and> sha256_file env rp = Inr sha
           \<and> i_doc_id doc = stable_doc_id sha \<and> i_sha256 doc = sha
           \<and> i_path doc = e_resolve env rp
           \<and> i_mtime doc = st_mtime st \<and> i_size_bytes doc = st_size st
           \<and> w_conn w0 = w_conn w"
  using assms
  by (auto simp: index_pdf_def Let_def split: sum.splits)

lemma ingest_file_skip:
  assumes "unchanged (get_document_by_path (w_conn w) (e_resolve env p)) force
             (e_stat env (e_resolve env p))"
  shows "ingest_file env cfg force p w = (Inr Skipped, w)"
  using assms by (simp add: ingest_file_def Let_def)


lemma ingest_file_error_committed:
  assumes "ingest_file env cfg force p w = (Inl e, w1)"
  shows "committed (w_conn w1) = committed (w_conn w)"
proof -
  let ?rp = "e_resolve env p"
  let ?ex = "get_document_by_path (w_conn w) ?rp"
  from assms have nsk: "\<not> unchanged ?ex force (e_stat env ?rp)"
    by (auto simp: ingest_file_def Let_def)
  obtain res w0 where ip: "index_pdf env cfg ?rp w = (res, w0)"
    by (cases "index_pdf env cfg ?rp w")
  have c0: "w_conn w0 = w_conn w"
    using index_pdf_conn [of env cfg ?rp w] ip by simp
  show ?thesis
  proof (cases res)
    case (Inl e0)
    with assms nsk ip have "w1 = w0"
      by (simp add: ingest_file_def Let_def)
    with c0 show ?thesis by simp
  next
    case (Inr doc)
    let ?c1 = "case ?ex of None \<Rightarrow> w_conn w0 | Some ex \<Rightarrow> delete_document_chunks (w_conn w0) (d_id ex)"
    let ?c2 = "upsert_document ?c1 (document_of doc)"
    obtain r3 c3 where ic: "insert_chunks ?c2 (i_chunks doc) = (r3, c3)"
      by (cases "insert_chunks ?c2 (i_chunks doc)")
    have "committed c3 = committed ?c2"
      using insert_chunks_committed [of ?c2 "i_chunks doc"] ic by simp
    also have "\<dots> = committed ?c1"
      by (rule upsert_document_committed)
    also have "\<dots> = committed (w_conn w0)"
      by (cases ?ex) (simp_all add: delete_document_chunks_committed)
    finally have c3: "committed c3 = committed (w_conn w)"
      using c0 by simp
    from assms nsk ip Inr ic have "w1 = w0\<lparr>w_conn := c3\<rparr>"
      by (cases r3) (simp_all add: ingest_file_def Let_def)
    with c3 show ?thesis by simp
  qed
qed

lemma ingest_file_indexed_clean:
  assumes "ingest_file env cfg force p w = (Inr Indexed, w1)"
  shows "working (w_conn w1) = committed (w_conn w1)"
  using assms
  by (auto simp: ingest_file_def Let_def commit_def split: if_splits prod.splits sum.splits)

lemma ingest_file_skipped_same:
  assumes "ingest_file env cfg force p w = (Inr Skipped, w1)"
  shows "w1 = w"
  using assms
  by (auto simp: ingest_file_def Let_def split: if_splits prod.splits sum.splits)

lemma ingest_file_Indexed:
  assumes "ingest_file env cfg force p w = (Inr Indexed, w1)"
  shows "\<exists>doc w0. index_pdf env cfg (e_resolve env p) w = (Inr doc, w0)
           \<and> documents (working (w_conn w1))
               = upsert_row (documents (working (w_conn w))) (document_of doc)
           \<and> committed (w_conn w1) = working (w_conn w1)"
proof -
  let ?rp = "e_resolve env p"
  let ?ex = "get_document_by_path (w_conn w) ?rp"
  from assms have nsk: "\<not> unchanged ?ex force (e_stat env ?rp)"
    by (auto simp: ingest_file_def Let_def)
  obtain res w0 where ip: "index_pdf env cfg ?rp w = (res, w0)"
    by (cases "index_pdf env cfg ?rp w")
  from assms nsk ip obtain doc where res: "res = Inr doc"
    by (cases res) (simp_all add: ingest_file_def Let_def)
  have c0: "w_conn w0 = w_conn w"
    using index_pdf_conn [of env cfg ?rp w] ip by simp
  let ?c1 = "case ?ex of None \<Rightarrow> w_conn w0 | Some ex \<Rightarrow> delete_document_chunks (w_conn w0) (d_id ex)"
  let ?c2 = "upsert_document ?c1 (document_of doc)"
  obtain r3 c3 where ic: "insert_chunks ?c2 (i_chunks doc) = (r3, c3)"
    by (cases "insert_chunks ?c2 (i_chunks doc)")
  have d1: "documents (working ?c1) = documents (working (w_conn w))"
    using c0 by (cases ?ex) (simp_all add: delete_document_chunks_def)
  have "documents (working c3) = documents (working ?c2)"
    using insert_chunks_documents [of ?c2 "i_chunks doc"] ic by simp
  also have "\<dots> = upsert_row (documents (working (w_conn w))) (document_of doc)"
    using d1 by (simp add: upsert_document_def)
  finally have d3: "documents (working c3)
      = upsert_row (documents (working (w_conn w))) (document_of doc)" .
  from assms nsk ip res ic have w1: "w1 = w0\<lparr>w_conn := commit (insert_fts_rows c3 (fts_rows_of doc))\<rparr>"
    by (cases r3) (simp_all add: ingest_file_def Let_def)
  have "documents (working (w_conn w1))
          = upsert_row (documents (working (w_conn w))) (document_of doc)"
    using d3 by (simp add: w1 commit_def insert_fts_rows_def)
  moreover have "committed (w_conn w1) = working (w_conn w1)"
    by (simp add: w1 commit_def)
  ultimately show ?thesis using ip res by blast
qed

lemma file_step_clean:
  assumes "clean (r_world r)"
  shows "clean (r_world (file_step env cfg force r p))"
proof -
  obtain res w1 where st: "ingest_file env cfg force p (r_world r) = (res, w1)"
    by (cases "ingest_file env cfg force p (r_world r)")
  show ?thesis
  proof (cases res)
    case (Inl e)
    with st show ?thesis by (simp add: file_step_def clean_def rollback_def)
  next
    case (Inr oc)
    show ?thesis
    proof (cases oc)
      case Indexed
      with st Inr ingest_file_indexed_clean [of env cfg force p "r_world r" w1]
      show ?thesis by (simp add: file_step_def clean_def)
    next
      case Skipped
      with st Inr ingest_file_skipped_same [of env cfg force p "r_world r" w1] assms
      show ?thesis by (simp add: file_step_def)
    qed
  qed
qed

lemma file_step_error:
  assumes "ingest_file env cfg force p (r_world r) = (Inl e, w1)"
    and "working (w_conn (r_world r)) = committed (w_conn (r_world r))"
  shows "file_step env cfg force r p =
           r\<lparr>r_errors := r_errors r @ [(p, e)],
             r_world := w1\<lparr>w_conn := w_conn (r_world r)\<rparr>\<rparr>"
proof -
  have "committed (w_conn w1) = committed (w_conn (r_world r))"
    using assms(1) by (rule ingest_file_error_committed)
  with assms(2) have "rollback (w_conn w1) = w_conn (r_world r)"
    by (simp add: rollback_def)
  with assms(1) show ?thesis
    by (simp add: file_step_def)
qed

lemma file_step_counts:
  "r_indexed (file_step env cfg force r p) + r_skipped (file_step env cfg force r p)
     + int (length (r_errors (file_step env cfg force r p)))
   = r_indexed r + r_skipped r + int (length (r_errors r)) + 1"
  by (simp add: file_step_def split: prod.splits sum.splits outcome.splits)

lemma file_step_error_files:
  "fst ` set (r_errors (file_step env cfg force r p)) \<subseteq> insert p (fst ` set (r_errors r))"
  by (auto simp: file_step_def split: prod.splits sum.splits outcome.splits)

lemma foldl_file_step_counts:
  "r_indexed (foldl (file_step env cfg force) r ps) + r_skipped (foldl (file_step env cfg force) r ps)
     + int (length (r_errors (foldl (file_step env cfg force) r ps)))
   = r_indexed r + r_skipped r + int (length (r_errors r)) + int (length ps)"
proof (induction ps arbitrary: r)
  case Nil
  show ?case by simp
next
  case (Cons p ps)
  show ?case
    using Cons.IH [of "file_step env cfg force r p"] file_step_counts [of env cfg force r p]
    by simp
qed

lemma foldl_file_step_error_files:
  "fst ` set (r_errors (foldl (file_step env cfg force) r ps)) \<subseteq> set ps \<union> fst ` set (r_errors r)"
proof (induction ps arbitrary: r)
  case Nil
  show ?case by simp
next
  case (Cons p ps)
  show ?case
    using Cons.IH [of "file_step env cfg force r p"] file_step_error_files [of env cfg force r p]
    by auto
qed

lemma ingest_paths_counts:
  "r_indexed (ingest_paths env cfg force ps w) + r_skipped (ingest_paths env cfg force ps w)
     + int (length (r_errors (ingest_paths env cfg force ps w))) = int (length ps)"
  using foldl_file_step_counts
          [of env cfg force "\<lparr>r_indexed = 0, r_skipped = 0, r_errors = [], r_world = w\<rparr>" ps]
  by (simp add: ingest_paths_def)

lemma ingest_paths_error_files:
  "fst ` set (r_errors (ingest_paths env cfg force ps w)) \<subseteq> set ps"
  using foldl_file_step_error_files
          [of env cfg force "\<lparr>r_indexed = 0, r_skipped = 0, r_errors = [], r_world = w\<rparr>" ps]
  by (simp add: ingest_paths_def)

lemma foldl_file_step_clean:
  "clean (r_world r) \<Longrightarrow> clean (r_world (foldl (file_step env cfg force) r ps))"
  by (induction ps arbitrary: r) (simp_all add: file_step_clean)

lemma ingest_paths_clean:
  "clean w \<Longrightarrow> clean (r_world (ingest_paths env cfg force ps w))"
  unfolding ingest_paths_def by (rule foldl_file_step_clean) simp

lemma ingest_paths_snoc:
  "ingest_paths env cfg force (ps @ p # qs) w
     = foldl (file_step env cfg force)
         (file_step env cfg force (ingest_paths env cfg force ps w) p) qs"
  by (simp add: ingest_paths_def)


subsection \<open>Change detection\<close>




subsection \<open>A failing file\<close>

text \<open>
  C7. In a batch \<open>ps @ p # qs\<close> started with no transaction open, when the body of the
  \<open>try\<close> raises \<open>e\<close> for \<open>p\<close> (wherever: \<open>stat\<close>, reading, extraction, or the insert
  after the delete and the upsert), the \<open>except\<close> clause leaves the connection exactly
  as it was before \<open>p\<close> (committed and working state), appends \<open>(p, e)\<close> to the errors,
  leaves both counters as they were, and the loop goes on with \<open>qs\<close>. The batch always
  returns, and every path is counted once: indexed, skipped or error.
\<close>

theorem batch_failure_isolated:
  assumes "working (w_conn w) = committed (w_conn w)"
    and "ingest_file env cfg force p (r_world (ingest_paths env cfg force ps w)) = (Inl e, w1)"
  shows "ingest_paths env cfg force (ps @ p # qs) w
           = foldl (file_step env cfg force)
               ((ingest_paths env cfg force ps w)
                  \<lparr>r_errors := r_errors (ingest_paths env cfg force ps w) @ [(p, e)],
                   r_world := w1\<lparr>w_conn := w_conn (r_world (ingest_paths env cfg force ps w))\<rparr>\<rparr>)
               qs
       \<and> r_indexed (ingest_paths env cfg force (ps @ p # qs) w)
           + r_skipped (ingest_paths env cfg force (ps @ p # qs) w)
           + int (length (r_errors (ingest_paths env cfg force (ps @ p # qs) w)))
           = int (length (ps @ p # qs))"
proof -
  let ?r = "ingest_paths env cfg force ps w"
  from assms(1) have "clean w" by (simp add: clean_def)
  then have "clean (r_world ?r)" by (rule ingest_paths_clean)
  then have c: "working (w_conn (r_world ?r)) = committed (w_conn (r_world ?r))"
    by (simp add: clean_def)
  have "file_step env cfg force ?r p
          = ?r\<lparr>r_errors := r_errors ?r @ [(p, e)], r_world := w1\<lparr>w_conn := w_conn (r_world ?r)\<rparr>\<rparr>"
    using assms(2) c by (rule file_step_error)
  then show ?thesis
    using ingest_paths_counts [of env cfg force "ps @ p # qs" w]
    by (simp only: ingest_paths_snoc)
qed

text \<open>C7, at a concrete input: with a repeating identifier supply the insert of the
  second file's chunk violates the primary key after its Document row has been written;
  the row is rolled back and the third path is processed.\<close>

theorem batch_failure_isolated_witness:
  "working (w_conn world0) = committed (w_conn world0)
   \<and> fst (ingest_file env_clash cfg0 False (u ''/d.pdf'')
            (r_world (ingest_paths env_clash cfg0 False [u ''/a.pdf''] world0))) = Inl IntegrityError
   \<and> map d_path (documents (working (w_conn (snd (ingest_file env_clash cfg0 False (u ''/d.pdf'')
            (r_world (ingest_paths env_clash cfg0 False [u ''/a.pdf''] world0)))))))
       = [u ''/a.pdf'', u ''/d.pdf'']
   \<and> ingest_paths env_clash cfg0 False ([u ''/a.pdf''] @ u ''/d.pdf'' # [u ''/a.pdf'']) world0
       = foldl (file_step env_clash cfg0 False)
           ((ingest_paths env_clash cfg0 False [u ''/a.pdf''] world0)
              \<lparr>r_errors := r_errors (ingest_paths env_clash cfg0 False [u ''/a.pdf''] world0)
                             @ [(u ''/d.pdf'', IntegrityError)],
               r_world := (snd (ingest_file env_clash cfg0 False (u ''/d.pdf'')
                             (r_world (ingest_paths env_clash cfg0 False [u ''/a.pdf''] world0))))
                  \<lparr>w_conn := w_conn (r_world (ingest_paths env_clash cfg0 False [u ''/a.pdf''] world0))\<rparr>\<rparr>)
           [u ''/a.pdf'']
   \<and> r_indexed (ingest_paths env_clash cfg0 False ([u ''/a.pdf''] @ u ''/d.pdf'' # [u ''/a.pdf'']) world0)
       + r_skipped (ingest_paths env_clash cfg0 False ([u ''/a.pdf''] @ u ''/d.pdf'' # [u ''/a.pdf'']) world0)
       + int (length (r_errors
           (ingest_paths env_clash cfg0 False ([u ''/a.pdf''] @ u ''/d.pdf'' # [u ''/a.pdf'']) world0)))
       = int (length ([u ''/a.pdf''] @ u ''/d.pdf'' # [u ''/a.pdf'']))"
proof -
  let ?r = "ingest_paths env_clash cfg0 False [u ''/a.pdf''] world0"
  let ?w1 = "snd (ingest_file env_clash cfg0 False (u ''/d.pdf'') (r_world ?r))"
  have h1: "working (w_conn world0) = committed (w_conn world0)"
    by (simp add: run_defs env_clash_def)
  have f2: "fst (ingest_file env_clash cfg0 False (u ''/d.pdf'') (r_world ?r)) = Inl IntegrityError"
    by (simp add: run_defs env_clash_def del: set_filter)
  have dirty: "map d_path (documents (working (w_conn ?w1))) = [u ''/a.pdf'', u ''/d.pdf'']"
    by (simp add: run_defs env_clash_def del: set_filter)
  have h2: "ingest_file env_clash cfg0 False (u ''/d.pdf'') (r_world ?r) = (Inl IntegrityError, ?w1)"
    using f2 by (simp add: prod_eq_iff)
  note t = batch_failure_isolated [OF h1 h2, of "[u ''/a.pdf'']"]
  show ?thesis
    by (intro conjI) (rule h1 f2 dirty t [THEN conjunct1] t [THEN conjunct2])+
qed

text \<open>The scenario of a corrupt file between two valid ones: two files indexed, one
  error entry, the chunks of the two valid files stored.\<close>

lemma batch_with_corrupt_file:
  "r_indexed (ingest_paths env_mixed cfg0 False [u ''/a.pdf'', u ''/c.pdf'', u ''/d.pdf''] world0) = 2
   \<and> r_skipped (ingest_paths env_mixed cfg0 False [u ''/a.pdf'', u ''/c.pdf'', u ''/d.pdf''] world0) = 0
   \<and> r_errors (ingest_paths env_mixed cfg0 False [u ''/a.pdf'', u ''/c.pdf'', u ''/d.pdf''] world0)
       = [(u ''/c.pdf'', ExtractionError)]
   \<and> map c_doc_id (chunks (committed (w_conn (r_world
        (ingest_paths env_mixed cfg0 False [u ''/a.pdf'', u ''/c.pdf'', u ''/d.pdf''] world0)))))
       = [u ''X'', u ''YY'']"
  by (simp add: run_defs env_mixed_def file_bad_def del: set_filter)


subsection \<open>An explicit list of files\<close>

lemma filter_raising_Inr:
  "filter_raising t xs = Inr ys \<Longrightarrow> ys = filter (\<lambda>x. t x = Inr True) xs"
proof (induction xs arbitrary: ys)
  case Nil
  then show ?case by simp
next
  case (Cons x xs)
  from Cons.prems obtain b zs where
    t: "t x = Inr b" and r: "filter_raising t xs = Inr zs" and ys: "ys = (if b then x # zs else zs)"
    by (auto split: sum.splits)
  from Cons.IH [OF r] have "zs = filter (\<lambda>x. t x = Inr True) xs" .
  with t ys show ?case by simp
qed

lemma listed_ok_True:
  "listed_ok env p = Inr True \<longleftrightarrow>
     e_exists env p = Inr True \<and> e_is_file env p = Inr True
       \<and> py_lower (e_suffix env p) = u ''.pdf''"
  by (auto simp: listed_ok_def file_and_pdf_def is_pdf_def split: sum.splits bool.splits)

text \<open>
  When no check of the listing raises, the batch is run on the listed paths that exist,
  are regular files and have the suffix \<open>.pdf\<close> in any letter case, in the order
  listed; the counters and the error entries add up to the number of those paths, and
  a path that was dropped has no entry in the errors.
\<close>

lemma listed_files_filtered:
  assumes "ib_files body = Some (f # fs)" and "ingest env cfg body w = Inr r"
  shows "r = ingest_paths env cfg (case ib_force body of None \<Rightarrow> False | Some b \<Rightarrow> b)
               (filter (\<lambda>p. e_exists env p = Inr True \<and> e_is_file env p = Inr True
                              \<and> py_lower (e_suffix env p) = u ''.pdf'') (f # fs)) w
       \<and> r_indexed r + r_skipped r + int (length (r_errors r))
           = int (length (filter (\<lambda>p. e_exists env p = Inr True \<and> e_is_file env p = Inr True
                              \<and> py_lower (e_suffix env p) = u ''.pdf'') (f # fs)))
       \<and> (\<forall>p\<in>set (f # fs).
             \<not> (e_exists env p = Inr True \<and> e_is_file env p = Inr True
                  \<and> py_lower (e_suffix env p) = u ''.pdf'')
             \<longrightarrow> p \<notin> fst ` set (r_errors r))"
proof -
  let ?ok = "\<lambda>p. e_exists env p = Inr True \<and> e_is_file env p = Inr True
                  \<and> py_lower (e_suffix env p) = u ''.pdf''"
  let ?force = "case ib_force body of None \<Rightarrow> False | Some b \<Rightarrow> b"
  from assms obtain ps where
    cand: "filter_raising (listed_ok env) (f # fs) = Inr ps"
    and r: "r = ingest_paths env cfg ?force ps w"
    by (auto simp: ingest_def candidate_paths_def Let_def split: sum.splits)
  from filter_raising_Inr [OF cand] have ps: "ps = filter ?ok (f # fs)"
    by (simp only: listed_ok_True)
  have run: "r = ingest_paths env cfg ?force (filter ?ok (f # fs)) w"
    unfolding r ps ..
  have cnt: "r_indexed r + r_skipped r + int (length (r_errors r))
               = int (length (filter ?ok (f # fs)))"
    unfolding run by (rule ingest_paths_counts)
  have sub: "fst ` set (r_errors r) \<subseteq> set (filter ?ok (f # fs))"
    unfolding run by (rule ingest_paths_error_files)
  have "?ok p" if "p \<in> fst ` set (r_errors r)" for p
  proof -
    from sub that have "p \<in> set (filter ?ok (f # fs))" by (rule subsetD)
    then have "p \<in> {x \<in> set (f # fs). ?ok x}" by (simp only: set_filter)
    then show ?thesis by blast
  qed
  then have drop: "\<forall>p\<in>set (f # fs). \<not> ?ok p \<longrightarrow> p \<notin> fst ` set (r_errors r)"
    by blast
  from run cnt drop show ?thesis by (intro conjI)
qed

text \<open>Of five listed paths the missing one and the text file are dropped, the one with
  the suffix \<open>.PDF\<close> is kept.\<close>

lemma listed_files_example:
  "map_sum (\<lambda>e. e) (\<lambda>r. (r_indexed r, r_skipped r, r_errors r))
     (ingest env_mixed cfg0 body_listed world0)
     = Inr (2, 0, [(u ''/c.pdf'', ExtractionError)])"
  by (simp add: ingest_def candidate_paths_def listed_ok_def file_and_pdf_def is_pdf_def
        body_listed_def run_defs env_mixed_def file_bad_def del: set_filter)

lemma name_of_long_path: "takeWhile (\<lambda>c. c \<noteq> 47) (rev long_path) = replicate 300 97"
proof -
  have "takeWhile (\<lambda>c. c \<noteq> 47) (replicate 300 97 @ [47 :: nat])
          = replicate 300 97 @ takeWhile (\<lambda>c. c \<noteq> 47) [47]"
    by (rule takeWhile_append2) simp
  then show ?thesis
    by (simp add: long_path_def)
qed

lemma long_path_neq: "length p \<le> 255 \<Longrightarrow> (long_path = p) = False"
  by (auto simp: long_path_def)

text \<open>
  C10. Claim: every listed path that does not exist is dropped without a trace, and the
  batch goes on. The code does not do this for every such path: \<open>Path.exists\<close> raises
  for a path whose \<open>stat\<close> fails with another error than "no such file" (here a name
  of 300 characters), and the loop that filters the listed paths is not inside a \<open>try\<close>.
  The request that lists a file and such a path has no batch result: the exception
  leaves the view, and the listed file is not ingested.
\<close>

theorem listed_missing_path_raises:
  "e_stat env_mixed long_path = Inl OSError
   \<and> e_exists env_mixed long_path = Inl OSError
   \<and> ingest env_mixed cfg0 body_long world0 = Inl OSError"
  by (simp add: ingest_def candidate_paths_def listed_ok_def file_and_pdf_def is_pdf_def
        body_long_def name_of_long_path long_path_neq run_defs env_mixed_def file_bad_def
      del: set_filter)


subsection \<open>One Document row per path\<close>

text \<open>
  C1. Claim: the store holds at most one Document row per path, and re-ingesting a path
  whose content changed replaces the row. The code does not do this: it deletes the
  chunks of the row it found and upserts by \<open>id\<close>, the content hash, so the new row is
  added and the old one stays. After the file of \<open>env_v1\<close> has been ingested and then,
  with changed content (\<open>env_v2\<close>), ingested again, two rows have the path.
\<close>

theorem stale_row_after_change:
  "map (\<lambda>d. (d_id d, d_path d))
     (documents (committed (w_conn (r_world (ingest_paths env_v2 cfg0 False [u ''/a.pdf''] world_v1)))))
     = [(u ''X'', u ''/a.pdf''), (u ''YY'', u ''/a.pdf'')]"
  by (simp add: run_defs env_v1_def env_v2_def world_v1_def del: set_filter)


subsection \<open>The same bytes under two paths\<close>

text \<open>
  C2, as stated. Claim: two files with the same bytes under two paths get the same id
  and hash, and the store then has two Document rows, one per path. The ids are the
  same, and for that reason there is one row: the upsert of the second file finds the
  conflict on \<open>id\<close> and overwrites the row of the first, path included.
\<close>

theorem twins_single_row:
  "e_resolve env_twins (u ''/a.pdf'') \<noteq> e_resolve env_twins (u ''/b.pdf'')
   \<and> e_read_bytes env_twins (u ''/a.pdf'') = e_read_bytes env_twins (u ''/b.pdf'')
   \<and> r_indexed (ingest_paths env_twins cfg0 False [u ''/a.pdf'', u ''/b.pdf''] world0) = 2
   \<and> map (\<lambda>d. (d_id d, d_path d)) (documents (committed (w_conn world_twins)))
       = [(u ''X'', u ''/b.pdf'')]"
  by (simp add: run_defs env_twins_def world_twins_def del: set_filter)

text \<open>
  C2, amended. Two files with the same bytes, ingested one after the other (each
  indexed) into a store whose Document ids are distinct: both get the same id and the
  same hash, functions of the bytes alone; after the first ingestion the one row with
  that id has the first path, after the second the one row with that id has the second
  path.
\<close>

theorem same_bytes_one_row:
  assumes "distinct (map d_id (documents (working (w_conn w))))"
    and "e_read_bytes env (e_resolve env p1) = Inr bs"
    and "e_read_bytes env (e_resolve env p2) = Inr bs"
    and "ingest_file env cfg force p1 w = (Inr Indexed, w1)"
    and "ingest_file env cfg force' p2 w1 = (Inr Indexed, w2)"
  shows "\<exists>d1 d2.
           filter (\<lambda>d. d_id d = stable_doc_id (e_sha256 env bs)) (documents (committed (w_conn w1))) = [d1]
         \<and> d_path d1 = e_resolve env (e_resolve env p1)
         \<and> filter (\<lambda>d. d_id d = stable_doc_id (e_sha256 env bs)) (documents (committed (w_conn w2))) = [d2]
         \<and> d_path d2 = e_resolve env (e_resolve env p2)
         \<and> d_id d1 = d_id d2 \<and> d_sha256 d1 = e_sha256 env bs \<and> d_sha256 d2 = e_sha256 env bs"
proof -
  let ?h = "stable_doc_id (e_sha256 env bs)"
  let ?docs = "documents (working (w_conn w))"
  from ingest_file_Indexed [OF assms(4)] obtain doc1 v1 where
    i1: "index_pdf env cfg (e_resolve env p1) w = (Inr doc1, v1)"
    and u1: "documents (working (w_conn w1)) = upsert_row ?docs (document_of doc1)"
    and k1: "committed (w_conn w1) = working (w_conn w1)"
    by blast
  from ingest_file_Indexed [OF assms(5)] obtain doc2 v2 where
    i2: "index_pdf env cfg (e_resolve env p2) w1 = (Inr doc2, v2)"
    and u2: "documents (working (w_conn w2))
               = upsert_row (documents (working (w_conn w1))) (document_of doc2)"
    and k2: "committed (w_conn w2) = working (w_conn w2)"
    by blast
  from index_pdf_Inr [OF i1] assms(2) have
    a1: "i_doc_id doc1 = ?h" "i_sha256 doc1 = e_sha256 env bs"
        "i_path doc1 = e_resolve env (e_resolve env p1)"
    by (auto simp: sha256_file_def)
  from index_pdf_Inr [OF i2] assms(3) have
    a2: "i_doc_id doc2 = ?h" "i_sha256 doc2 = e_sha256 env bs"
        "i_path doc2 = e_resolve env (e_resolve env p2)"
    by (auto simp: sha256_file_def)
  let ?d1 = "document_of doc1" and ?d2 = "document_of doc2"
  have id1: "d_id ?d1 = ?h" and id2: "d_id ?d2 = ?h"
    using a1 a2 by (simp_all add: document_of_def)
  have f1: "filter (\<lambda>d. d_id d = ?h) (documents (committed (w_conn w1))) = [?d1]"
    using upsert_row_filter [OF assms(1), of ?d1] by (simp add: k1 u1 id1)
  have dist1: "distinct (map d_id (documents (working (w_conn w1))))"
    unfolding u1 using assms(1) by (rule upsert_row_distinct)
  have f2: "filter (\<lambda>d. d_id d = ?h) (documents (committed (w_conn w2))) = [?d2]"
    using upsert_row_filter [OF dist1, of ?d2] by (simp add: k2 u2 id2)
  have "d_path ?d1 = e_resolve env (e_resolve env p1)" "d_path ?d2 = e_resolve env (e_resolve env p2)"
    "d_sha256 ?d1 = e_sha256 env bs" "d_sha256 ?d2 = e_sha256 env bs" "d_id ?d1 = d_id ?d2"
    using a1 a2 by (simp_all add: document_of_def)
  with f1 f2 show ?thesis by blast
qed

text \<open>C2, amended, at a concrete input: the two files of \<open>env_twins\<close>.\<close>

theorem same_bytes_one_row_witness:
  "distinct (map d_id (documents (working (w_conn world0))))
   \<and> e_read_bytes env_twins (e_resolve env_twins (u ''/a.pdf'')) = Inr ''X''
   \<and> e_read_bytes env_twins (e_resolve env_twins (u ''/b.pdf'')) = Inr ''X''
   \<and> fst (ingest_file env_twins cfg0 False (u ''/a.pdf'') world0) = Inr Indexed
   \<and> fst (ingest_file env_twins cfg0 False (u ''/b.pdf'')
             (snd (ingest_file env_twins cfg0 False (u ''/a.pdf'') world0))) = Inr Indexed
   \<and> (\<exists>d1 d2.
           filter (\<lambda>d. d_id d = stable_doc_id (e_sha256 env_twins ''X''))
             (documents (committed (w_conn (snd (ingest_file env_twins cfg0 False (u ''/a.pdf'') world0))))) = [d1]
         \<and> d_path d1 = e_resolve env_twins (e_resolve env_twins (u ''/a.pdf''))
         \<and> filter (\<lambda>d. d_id d = stable_doc_id (e_sha256 env_twins ''X''))
             (documents (committed (w_conn (snd (ingest_file env_twins cfg0 False (u ''/b.pdf'')
                (snd (ingest_file env_twins cfg0 False (u ''/a.pdf'') world0))))))) = [d2]
         \<and> d_path d2 = e_resolve env_twins (e_resolve env_twins (u ''/b.pdf''))
         \<and> d_id d1 = d_id d2 \<and> d_sha256 d1 = e_sha256 env_twins ''X''
         \<and> d_sha256 d2 = e_sha256 env_twins ''X'')"
proof -
  let ?w1 = "snd (ingest_file env_twins cfg0 False (u ''/a.pdf'') world0)"
  let ?w2 = "snd (ingest_file env_twins cfg0 False (u ''/b.pdf'') ?w1)"
  have h1: "distinct (map d_id (documents (working (w_conn world0))))"
    by (simp add: run_defs env_twins_def)
  have h2: "e_read_bytes env_twins (e_resolve env_twins (u ''/a.pdf'')) = Inr ''X''"
    by (simp add: run_defs env_twins_def)
  have h3: "e_read_bytes env_twins (e_resolve env_twins (u ''/b.pdf'')) = Inr ''X''"
    by (simp add: run_defs env_twins_def)
  have f4: "fst (ingest_file env_twins cfg0 False (u ''/a.pdf'') world0) = Inr Indexed"
    by (simp add: run_defs env_twins_def del: set_filter)
  have f5: "fst (ingest_file env_twins cfg0 False (u ''/b.pdf'') ?w1) = Inr Indexed"
    by (simp add: run_defs env_twins_def del: set_filter)
  have h4: "ingest_file env_twins cfg0 False (u ''/a.pdf'') world0 = (Inr Indexed, ?w1)"
    using f4 by (simp add: prod_eq_iff)
  have h5: "ingest_file env_twins cfg0 False (u ''/b.pdf'') ?w1 = (Inr Indexed, ?w2)"
    using f5 by (simp add: prod_eq_iff)
  from same_bytes_one_row [OF h1 h2 h3 h4 h5] h1 h2 h3 f4 f5
  show ?thesis by (intro conjI)
qed


subsection \<open>Ingesting an unchanged file again\<close>

text \<open>
  C6. Claim: the second of two runs on an unchanged file, without \<open>force\<close>, skips it
  and leaves the number of chunks as it was. The code does not do this for a file whose
  content has changed before the first of the two runs: the Document row of the old
  content stays in the table (the defect of C1) and is the row that the lookup by path
  finds, with the old \<open>mtime\<close> and size. The file of \<open>env_v1\<close> is ingested; its content
  changes (\<open>env_v2\<close>); the first run indexes it; the second run, nothing having changed
  since, indexes it again, and the chunks of the document go from one to two.
\<close>

theorem unchanged_file_reindexed:
  "r_indexed (ingest_paths env_v2 cfg0 False [u ''/a.pdf''] world_v1) = 1
   \<and> r_errors (ingest_paths env_v2 cfg0 False [u ''/a.pdf''] world_v1) = []
   \<and> map c_doc_id (chunks (committed (w_conn (r_world
         (ingest_paths env_v2 cfg0 False [u ''/a.pdf''] world_v1))))) = [u ''YY'']
   \<and> r_indexed (ingest_paths env_v2 cfg0 False [u ''/a.pdf'']
         (r_world (ingest_paths env_v2 cfg0 False [u ''/a.pdf''] world_v1))) = 1
   \<and> r_skipped (ingest_paths env_v2 cfg0 False [u ''/a.pdf'']
         (r_world (ingest_paths env_v2 cfg0 False [u ''/a.pdf''] world_v1))) = 0
   \<and> map c_doc_id (chunks (committed (w_conn (r_world
         (ingest_paths env_v2 cfg0 False [u ''/a.pdf'']
            (r_world (ingest_paths env_v2 cfg0 False [u ''/a.pdf''] world_v1)))))))
       = [u ''YY'', u ''YY'']"
  by (simp add: run_defs env_v1_def env_v2_def world_v1_def del: set_filter)

text \<open>
  The same with two files of the same bytes and no change of content at all: ingested
  in one batch twice, both are indexed again by the second run and the chunks of the
  document go from two to four. Each file's upsert has moved the one row to its own
  path, so the lookup by the other path finds nothing.
\<close>

lemma twins_reingest_not_skipped:
  "r_indexed (ingest_paths env_twins cfg0 False [u ''/a.pdf'', u ''/b.pdf''] world_twins) = 2
   \<and> r_skipped (ingest_paths env_twins cfg0 False [u ''/a.pdf'', u ''/b.pdf''] world_twins) = 0
   \<and> map c_doc_id (chunks (committed (w_conn world_twins))) = [u ''X'', u ''X'']
   \<and> map c_doc_id (chunks (committed (w_conn (r_world
         (ingest_paths env_twins cfg0 False [u ''/a.pdf'', u ''/b.pdf''] world_twins)))))
       = [u ''X'', u ''X'', u ''X'', u ''X'']"
  by (simp add: run_defs env_twins_def world_twins_def del: set_filter)

text \<open>
  Where the second run does skip. A file is ingested alone, without \<open>force\<close>, and no
  error is recorded; the store before that run has no Document row for the file's path
  under another id than that of the file's content; \<open>resolve\<close> returns a resolved path
  unchanged. When the file is then ingested alone again, without \<open>force\<close>, its path
  resolving as before and its \<open>stat\<close> being the same, the result is \<open>indexed = 0\<close>,
  \<open>skipped = 1\<close>, no error, and the state is that after the first run.
\<close>

lemma unchanged_reingest_skipped:
  assumes "r_errors (ingest_paths env cfg False [p] w) = []"
    and "e_resolve env (e_resolve env p) = e_resolve env p"
    and "\<forall>d\<in>set (documents (working (w_conn w))).
           d_path d = e_resolve env p \<longrightarrow> sha256_file env (e_resolve env p) = Inr (d_id d)"
    and "e_resolve env' p = e_resolve env p"
    and "e_stat env' (e_resolve env p) = e_stat env (e_resolve env p)"
  shows "ingest_paths env' cfg' False [p] (r_world (ingest_paths env cfg False [p] w))
           = \<lparr>r_indexed = 0, r_skipped = 1, r_errors = [],
              r_world = r_world (ingest_paths env cfg False [p] w)\<rparr>"
proof -
  let ?rp = "e_resolve env p"
  obtain res w1 where run: "ingest_file env cfg False p w = (res, w1)"
    by (cases "ingest_file env cfg False p w")
  have skip2: "ingest_file env' cfg' False p w1 = (Inr Skipped, w1)"
  proof (cases res)
    case (Inl e)
    with run assms(1) show ?thesis
      by (simp add: ingest_paths_def file_step_def)
  next
    case (Inr oc)
    show ?thesis
    proof (cases oc)
      case Skipped
      with run Inr have same: "w1 = w"
        using ingest_file_skipped_same by blast
      from run Inr Skipped have "unchanged (get_document_by_path (w_conn w) ?rp) False (e_stat env ?rp)"
        by (auto simp: ingest_file_def Let_def split: if_splits prod.splits sum.splits)
      then have "unchanged (get_document_by_path (w_conn w1) (e_resolve env' p)) False
                   (e_stat env' (e_resolve env' p))"
        by (simp add: same assms(4,5))
      then show ?thesis by (rule ingest_file_skip)
    next
      case Indexed
      from run Inr Indexed have ix: "ingest_file env cfg False p w = (Inr Indexed, w1)" by simp
      from ingest_file_Indexed [OF ix] obtain doc v where
        ip: "index_pdf env cfg ?rp w = (Inr doc, v)"
        and up: "documents (working (w_conn w1))
                   = upsert_row (documents (working (w_conn w))) (document_of doc)"
        by blast
      from index_pdf_Inr [OF ip] obtain st sha where
        st: "e_stat env ?rp = Inr st" and sha: "sha256_file env ?rp = Inr sha"
        and d: "i_doc_id doc = stable_doc_id sha" "i_path doc = e_resolve env ?rp"
               "i_mtime doc = st_mtime st" "i_size_bytes doc = st_size st"
        by blast
      let ?d = "document_of doc"
      have path: "d_path ?d = ?rp"
        using d(2) assms(2) by (simp add: document_of_def)
      have "\<forall>r\<in>set (documents (working (w_conn w))). d_path r = d_path ?d \<longrightarrow> d_id r = d_id ?d"
        using assms(3) sha d(1) path by (auto simp: document_of_def stable_doc_id_def)
      then have "find (\<lambda>r. d_path r = d_path ?d)
                   (upsert_row (documents (working (w_conn w))) ?d) = Some ?d"
        by (rule upsert_row_find)
      then have found: "get_document_by_path (w_conn w1) ?rp = Some ?d"
        by (simp add: get_document_by_path_def up path)
      have "unchanged (Some ?d) False (e_stat env ?rp)"
        using st d(3,4) by (simp add: unchanged_def document_of_def)
      then have "unchanged (get_document_by_path (w_conn w1) (e_resolve env' p)) False
                   (e_stat env' (e_resolve env' p))"
        by (simp add: found assms(4,5))
      then show ?thesis by (rule ingest_file_skip)
    qed
  qed
  have "r_world (ingest_paths env cfg False [p] w) = w1"
  proof (cases res)
    case (Inl e)
    with run assms(1) show ?thesis
      by (simp add: ingest_paths_def file_step_def)
  next
    case (Inr oc)
    with run show ?thesis
      by (cases oc) (simp_all add: ingest_paths_def file_step_def)
  qed
  with skip2 show ?thesis
    by (simp add: ingest_paths_def file_step_def)
qed


section \<open>Properties of search and query\<close>

lemma sorted_sql_limit: "sorted (map f xs) \<Longrightarrow> sorted (map f (sql_limit k xs))"
  by (simp add: sql_limit_def take_map [symmetric] sorted_wrt_take)

lemma length_sql_limit: "0 \<le> k \<Longrightarrow> length (sql_limit k xs) \<le> nat k"
  by (simp add: sql_limit_def)

lemma hd_sql_limit: "sql_limit k xs \<noteq> [] \<Longrightarrow> hd (sql_limit k xs) = hd xs"
  by (cases xs) (auto simp: sql_limit_def split: if_splits)

lemma hd_sorted_le:
  assumes "sorted (map f xs)" and "x \<in> set xs"
  shows "f (hd xs) \<le> f x"
  using assms by (cases xs) auto

lemma world_twins_fts:
  "map (\<lambda>r. (f_chunk_id r, f_path r)) (chunks_fts (working (w_conn world_twins)))
     = [(0, u ''/a.pdf''), (1, u ''/b.pdf'')]"
  by (simp add: run_defs env_twins_def world_twins_def del: set_filter)

text \<open>
  C8, as stated. Claim: for every \<open>topK\<close> the results are at most \<open>topK\<close>. The value is
  passed to \<open>LIMIT\<close> as it is, and a negative \<open>LIMIT\<close> puts no bound: with
  \<open>top_k = -1\<close> both rows of the table are returned.
\<close>

theorem search_uncapped_counterexample:
  "map sr_path (projr (search_chunks eng0 (w_conn world_twins) (u ''old'') (- 1) 800))
     = [u ''/a.pdf'', u ''/b.pdf'']
   \<and> \<not> int (length (projr (search_chunks eng0 (w_conn world_twins) (u ''old'') (- 1) 800))) \<le> - 1"
  by (simp add: search_chunks_def sql_limit_def int64_def utf8_encodable_def
        run_defs env_twins_def world_twins_def eng0_def del: set_filter)

text \<open>A value of \<open>top_k\<close> that is not a signed 64-bit integer is not bound: the search
  raises.\<close>

lemma search_chunks_overflow:
  "search_chunks eng0 (w_conn world_twins) (u ''old'') 9223372036854775808 800 = Inl OverflowError"
  by (simp add: search_chunks_def int64_def utf8_encodable_def text_defs)

lemma search_chunks_Inr:
  assumes "search_chunks eng conn q top_k snippet_chars = Inr rs"
  shows "sorted (map sr_score rs)
       \<and> (0 \<le> top_k \<longrightarrow> int (length rs) \<le> top_k)
       \<and> (\<forall>row\<in>set (chunks_fts (working conn)). fts_match eng q row \<longrightarrow> rs \<noteq> [] \<longrightarrow>
             sr_score (hd rs) \<le> fts_bm25 eng q (chunks_fts (working conn)) row)"
proof -
  let ?tbl = "chunks_fts (working conn)"
  let ?scored = "map (\<lambda>r. (fts_bm25 eng q ?tbl r, r)) (filter (fts_match eng q) ?tbl)"
  let ?rows = "sql_limit top_k (sort_key fst ?scored)"
  let ?mk = "\<lambda>(score, r).
                  \<lparr>sr_doc_id = f_document_id r, sr_filename = f_filename r, sr_path = f_path r,
                    sr_page_start = f_page_start r, sr_page_end = f_page_end r,
                    sr_score = score,
                    sr_snippet = fts_snippet eng q (max 10 snippet_chars) r\<rparr>"
  from assms have rs: "rs = map ?mk ?rows"
    by (simp add: search_chunks_def Let_def split: if_splits)
  have score: "map sr_score rs = map fst ?rows"
    unfolding rs by (simp add: case_prod_unfold comp_def)
  have s0: "sorted (map fst (sort_key fst ?scored))"
    by (rule sorted_sort_key)
  then have s1: "sorted (map fst ?rows)"
    by (rule sorted_sql_limit)
  have len: "length rs = length ?rows"
    unfolding rs by simp
  have cap: "0 \<le> top_k \<longrightarrow> int (length rs) \<le> top_k"
    using length_sql_limit [of top_k "sort_key fst ?scored"] len by auto
  have best: "sr_score (hd rs) \<le> fts_bm25 eng q ?tbl row"
    if "row \<in> set ?tbl" "fts_match eng q row" "rs \<noteq> []" for row
  proof -
    from that(3) have ne: "?rows \<noteq> []" unfolding rs by simp
    have "sr_score (hd rs) = fst (hd ?rows)"
      using ne unfolding rs by (simp add: hd_map case_prod_unfold)
    also have "\<dots> = fst (hd (sort_key fst ?scored))"
      using hd_sql_limit [OF ne] by simp
    also have "\<dots> \<le> fst (fts_bm25 eng q ?tbl row, row)"
    proof (rule hd_sorted_le [OF s0])
      show "(fts_bm25 eng q ?tbl row, row) \<in> set (sort_key fst ?scored)"
        using that(1,2) by auto
    qed
    finally show ?thesis by simp
  qed
  from score s1 cap best show ?thesis by auto
qed

text \<open>
  C8, amended. For every query that can be encoded in UTF-8 and that the engine parses,
  every \<open>top_k\<close> that is a signed 64-bit integer and every \<open>snippet_chars\<close> whose
  maximum with 10 is one, the search returns a list of results in non-decreasing order
  of their \<open>bm25\<close> score, lower being better; the first result has the least score of
  all the matching rows; the list is not empty when a row matches and \<open>top_k\<close> is not
  0; and when \<open>top_k\<close> is not negative there are at most \<open>top_k\<close> results.
\<close>

theorem search_sorted_capped:
  assumes "int64 (max 10 snippet_chars)" and "utf8_encodable q" and "int64 top_k"
    and "fts_accepts eng q"
  shows "\<exists>rs. search_chunks eng conn q top_k snippet_chars = Inr rs
           \<and> sorted (map sr_score rs)
           \<and> (0 \<le> top_k \<longrightarrow> int (length rs) \<le> top_k)
           \<and> (\<forall>row\<in>set (chunks_fts (working conn)). fts_match eng q row \<longrightarrow>
                 top_k \<noteq> 0 \<longrightarrow>
                 rs \<noteq> [] \<and> sr_score (hd rs) \<le> fts_bm25 eng q (chunks_fts (working conn)) row)"
proof -
  let ?tbl = "chunks_fts (working conn)"
  let ?scored = "map (\<lambda>r. (fts_bm25 eng q ?tbl r, r)) (filter (fts_match eng q) ?tbl)"
  let ?mk = "\<lambda>(score, r).
                  \<lparr>sr_doc_id = f_document_id r, sr_filename = f_filename r, sr_path = f_path r,
                    sr_page_start = f_page_start r, sr_page_end = f_page_end r,
                    sr_score = score,
                    sr_snippet = fts_snippet eng q (max 10 snippet_chars) r\<rparr>"
  define rs where "rs = map ?mk (sql_limit top_k (sort_key fst ?scored))"
  have rs: "search_chunks eng conn q top_k snippet_chars = Inr rs"
    unfolding rs_def search_chunks_def Let_def using assms by simp
  have ne: "rs \<noteq> []" if "row \<in> set ?tbl" "fts_match eng q row" "top_k \<noteq> 0" for row
  proof -
    from that(1,2) have "filter (fts_match eng q) ?tbl \<noteq> []"
      by (auto simp: filter_empty_conv)
    then have "?scored \<noteq> []"
      by simp
    have "sort_key fst ?scored \<noteq> []"
    proof
      assume "sort_key fst ?scored = []"
      then have "length (sort_key fst ?scored) = 0"
        by (simp only: list.size)
      then have "length ?scored = 0"
        by (simp only: length_sort)
      with \<open>?scored \<noteq> []\<close> show False
        by (simp only: length_0_conv)
    qed
    with that(3) have "sql_limit top_k (sort_key fst ?scored) \<noteq> []"
      by (cases "sort_key fst ?scored") (simp_all add: sql_limit_def)
    then show ?thesis
      by (simp add: rs_def)
  qed
  note p = search_chunks_Inr [OF rs]
  have best: "\<forall>row\<in>set ?tbl. fts_match eng q row \<longrightarrow> top_k \<noteq> 0 \<longrightarrow>
                 rs \<noteq> [] \<and> sr_score (hd rs) \<le> fts_bm25 eng q ?tbl row"
  proof (intro ballI impI conjI)
    fix row
    assume r: "row \<in> set ?tbl" "fts_match eng q row" "top_k \<noteq> 0"
    then show "rs \<noteq> []" by (rule ne)
    with p r(1,2) show "sr_score (hd rs) \<le> fts_bm25 eng q ?tbl row" by blast
  qed
  from p have srt: "sorted (map sr_score rs)" and cap: "0 \<le> top_k \<longrightarrow> int (length rs) \<le> top_k"
    by (rule conjunct1, rule conjunct2 [THEN conjunct1])
  show ?thesis
    by (rule exI [of _ rs]) (intro conjI rs srt cap best)
qed

text \<open>C8, amended, at a concrete input: \<open>top_k = 1\<close> on the table with two matching
  rows.\<close>

theorem search_sorted_capped_witness:
  "int64 (max 10 800) \<and> utf8_encodable (u ''old'') \<and> int64 1
   \<and> fts_accepts eng0 (u ''old'')
   \<and> search_chunks eng0 (w_conn world_twins) (u ''old'') 1 800
       = Inr [\<lparr>sr_doc_id = u ''X'', sr_filename = u ''a.pdf'', sr_path = u ''/a.pdf'',
               sr_page_start = 1, sr_page_end = 1, sr_score = 1, sr_snippet = u ''old''\<rparr>]
   \<and> (\<exists>rs. search_chunks eng0 (w_conn world_twins) (u ''old'') 1 800 = Inr rs
         \<and> sorted (map sr_score rs) \<and> int (length rs) \<le> 1 \<and> rs \<noteq> [])"
proof -
  have h1: "int64 (max 10 800)"
    by (simp add: int64_def)
  have h2: "utf8_encodable (u ''old'')"
    by (simp add: utf8_encodable_def u_def)
  have h3: "int64 1"
    by (simp add: int64_def)
  have h: "fts_accepts eng0 (u ''old'')"
    by (simp add: eng0_def)
  have v: "search_chunks eng0 (w_conn world_twins) (u ''old'') 1 800
     = Inr [\<lparr>sr_doc_id = u ''X'', sr_filename = u ''a.pdf'', sr_path = u ''/a.pdf'',
             sr_page_start = 1, sr_page_end = 1, sr_score = 1, sr_snippet = u ''old''\<rparr>]"
    by (simp add: search_chunks_def sql_limit_def int64_def utf8_encodable_def
          run_defs env_twins_def world_twins_def eng0_def del: set_filter)
  have pos: "(0 :: int) \<le> 1" by simp
  from search_sorted_capped [OF h1 h2 h3 h, of "w_conn world_twins"]
  obtain rs where r: "search_chunks eng0 (w_conn world_twins) (u ''old'') 1 800 = Inr rs"
    "sorted (map sr_score rs)" "(0 :: int) \<le> 1 \<longrightarrow> int (length rs) \<le> 1"
    by blast
  from r(3) pos have cap: "int (length rs) \<le> 1" by (rule mp)
  from r(1) v have "rs \<noteq> []" by auto
  with r(1,2) cap have "\<exists>rs. search_chunks eng0 (w_conn world_twins) (u ''old'') 1 800 = Inr rs
         \<and> sorted (map sr_score rs) \<and> int (length rs) \<le> 1 \<and> rs \<noteq> []"
    by (intro exI [of _ rs] conjI)
  with h1 h2 h3 h v show ?thesis by (intro conjI)
qed

text \<open>White space only, seen through \<open>strip\<close>.\<close>

lemma py_strip_empty_iff: "py_strip s = [] \<longleftrightarrow> (\<forall>c\<in>set s. is_space c)"
proof
  assume "py_strip s = []"
  then have "dropWhile is_space (rev (dropWhile is_space s)) = []"
    by (simp add: py_strip_def)
  then have a: "\<forall>c\<in>set (dropWhile is_space s). is_space c"
    by simp
  show "\<forall>c\<in>set s. is_space c"
  proof (rule ccontr)
    assume "\<not> (\<forall>c\<in>set s. is_space c)"
    then have ne: "dropWhile is_space s \<noteq> []"
      by simp
    then have "\<not> is_space (hd (dropWhile is_space s))"
      by (rule hd_dropWhile)
    moreover from ne have "hd (dropWhile is_space s) \<in> set (dropWhile is_space s)"
      by simp
    ultimately show False using a by blast
  qed
next
  assume "\<forall>c\<in>set s. is_space c"
  then have d: "dropWhile is_space s = []"
    by simp
  show "py_strip s = []"
    unfolding py_strip_def d by simp
qed

text \<open>
  C9. A request whose \<open>query\<close> is absent, empty or white space only is answered with
  status 400 and \<open>search_chunks\<close> is not called. Every other request is not answered
  with that error, and \<open>search_chunks\<close> is called once.
\<close>

theorem query_blank_rejected:
  "(blank_query body \<longrightarrow>
       query eng cfg conn body = (MissingQuery, []) \<and> status (fst (query eng cfg conn body)) = 400)
   \<and> (\<not> blank_query body \<longrightarrow>
       fst (query eng cfg conn body) \<noteq> MissingQuery \<and> length (snd (query eng cfg conn body)) = 1)"
proof (cases "blank_query body")
  case True
  then have "py_strip (case qb_query body of None \<Rightarrow> [] | Some s \<Rightarrow> s) = []"
    by (auto simp: blank_query_def py_strip_empty_iff list_all_iff split: option.splits)
  with True show ?thesis
    by (simp add: query_def)
next
  case False
  then have "py_strip (case qb_query body of None \<Rightarrow> [] | Some s \<Rightarrow> s) \<noteq> []"
    by (auto simp: blank_query_def py_strip_empty_iff list_all_iff split: option.splits)
  with False show ?thesis
    by (simp add: query_def Let_def split: sum.splits)
qed

text \<open>C9, at a concrete input: a query of two spaces, and the query \<open>old\<close> between
  spaces.\<close>

theorem query_blank_rejected_witness:
  "blank_query \<lparr>qb_query = Some (u ''  ''), qb_top_k = None, qb_snippet_chars = None\<rparr>
   \<and> query eng0 cfg0 (w_conn world_twins)
        \<lparr>qb_query = Some (u ''  ''), qb_top_k = None, qb_snippet_chars = None\<rparr> = (MissingQuery, [])
   \<and> status (fst (query eng0 cfg0 (w_conn world_twins)
        \<lparr>qb_query = Some (u ''  ''), qb_top_k = None, qb_snippet_chars = None\<rparr>)) = 400
   \<and> \<not> blank_query \<lparr>qb_query = Some (u '' old ''), qb_top_k = None, qb_snippet_chars = None\<rparr>
   \<and> fst (query eng0 cfg0 (w_conn world_twins)
        \<lparr>qb_query = Some (u '' old ''), qb_top_k = None, qb_snippet_chars = None\<rparr>) \<noteq> MissingQuery
   \<and> length (snd (query eng0 cfg0 (w_conn world_twins)
        \<lparr>qb_query = Some (u '' old ''), qb_top_k = None, qb_snippet_chars = None\<rparr>)) = 1"
proof -
  have b1: "blank_query \<lparr>qb_query = Some (u ''  ''), qb_top_k = None, qb_snippet_chars = None\<rparr>"
    by (simp add: blank_query_def text_defs)
  have b2: "\<not> blank_query \<lparr>qb_query = Some (u '' old ''), qb_top_k = None, qb_snippet_chars = None\<rparr>"
    by (simp add: blank_query_def text_defs)
  from query_blank_rejected [of "\<lparr>qb_query = Some (u ''  ''), qb_top_k = None, qb_snippet_chars = None\<rparr>"
         eng0 cfg0 "w_conn world_twins"]
       query_blank_rejected [of "\<lparr>qb_query = Some (u '' old ''), qb_top_k = None, qb_snippet_chars = None\<rparr>"
         eng0 cfg0 "w_conn world_twins"]
  show ?thesis using b1 b2 by blast
qed

end
